theory Spec2Isabelle
  imports Complex_Main "HOL-Library.AList"
begin

section \<open>Values shared by the workflow modules\<close>

text \<open>
  The TypeScript sources type several fields as \<open>any\<close> (checkpoint state, node inputs and
  outputs). Such a value is modelled as a JSON-like tree; \<open>truthy\<close> is JavaScript's
  conversion to boolean, which the \<open>||\<close> defaults of the source depend on.
  Numbers are exact (integers for counts and millisecond time stamps, reals where the source
  divides); floating-point rounding is outside the model.
\<close>

datatype jsval =
    JUndefined
  | JNull
  | JBool bool
  | JNum int
  | JStr string
  | JArr "jsval list"
  | JObj "(string \<times> jsval) list"

fun truthy :: "jsval \<Rightarrow> bool" where
  "truthy JUndefined = False"
| "truthy JNull = False"
| "truthy (JBool b) = b"
| "truthy (JNum n) = (n \<noteq> 0)"
| "truthy (JStr s) = (s \<noteq> [])"
| "truthy (JArr xs) = True"
| "truthy (JObj kvs) = True"

text \<open>\<open>a || b\<close> on values.\<close>

definition js_or :: "jsval \<Rightarrow> jsval \<Rightarrow> jsval" where
  "js_or a b = (if truthy a then a else b)"

text \<open>\<open>s || d\<close> on an optional string: the default replaces both a missing and an empty one.\<close>

definition str_or :: "string option \<Rightarrow> string \<Rightarrow> string" where
  "str_or s d = (case s of None \<Rightarrow> d | Some x \<Rightarrow> if x = [] then d else x)"

text \<open>Decimal rendering of a number inside a template string.\<close>

function show_nat :: "nat \<Rightarrow> string" where
  "show_nat n =
     (if n < 10 then [''0123456789'' ! n]
      else show_nat (n div 10) @ [''0123456789'' ! (n mod 10)])"
  by pat_completeness auto
termination
  by (relation "measure (\<lambda>n. n)") auto

declare show_nat.simps [simp del]

definition show_int :: "int \<Rightarrow> string" where
  "show_int i = (if i < 0 then CHR ''-'' # show_nat (nat (- i)) else show_nat (nat i))"

text \<open>\<open>Array.prototype.findIndex\<close> and \<open>find\<close>: the first position (element) satisfying the
  predicate; \<open>None\<close> stands for \<open>-1\<close> (\<open>undefined\<close>).\<close>

fun findIndex :: "('a \<Rightarrow> bool) \<Rightarrow> 'a list \<Rightarrow> nat option" where
  "findIndex P [] = None"
| "findIndex P (x # xs) =
     (if P x then Some 0 else map_option Suc (findIndex P xs))"

text \<open>\<open>xs[i]\<close>: \<open>undefined\<close> outside the array.\<close>

definition at_index :: "'a list \<Rightarrow> nat \<Rightarrow> 'a option" where
  "at_index xs i = (if i < length xs then Some (xs ! i) else None)"


section \<open>WorkflowDefinition\<close>

text \<open>
  The fields of a workflow definition that the validator and the recorder read. The optional
  \<open>version\<close> object is flattened: \<open>wf_version\<close> is \<open>workflow.version?.version\<close>. The
  node and edge collections are typed arrays, so they are lists here.
\<close>

record InputMapping =
  im_from :: string
  im_output :: string

record NodePosition =
  pos_x :: jsval
  pos_y :: jsval

record WorkflowNode =
  node_id :: string
  node_type :: string
  position :: "NodePosition option"
  config :: jsval
  node_inputs :: "(string \<times> InputMapping) list"

record WorkflowEdge =
  edge_id :: string
  source :: string
  sourceOutput :: string
  target :: string
  targetInput :: string
  enabled :: "bool option"

record RetryPolicy =
  maxRetries :: int

record WorkflowSettings =
  maxConcurrency :: "int option"
  timeout :: "int option"
  retryPolicy :: "RetryPolicy option"

record WorkflowDefinition =
  wf_id :: string
  wf_name :: string
  wf_version :: "string option"
  wf_nodes :: "WorkflowNode list"
  wf_edges :: "WorkflowEdge list"
  settings :: "WorkflowSettings option"


section \<open>WorkflowValidator\<close>

record ValidationError =
  code :: string
  message :: string
  ve_nodeId :: "string option"
  ve_edgeId :: "string option"
  ve_field :: "string option"

record ValidationWarning =
  w_code :: string
  w_message :: string
  w_nodeId :: "string option"
  suggestion :: "string option"

subsection \<open>Schema\<close>

text \<open>\<open>String.prototype.trim\<close>. A \<open>string\<close> is a list of 8-bit characters, read as the code
  units below 256 of the JavaScript string. Of the white space and line terminators that
  \<open>trim\<close> strips, these are tab, line feed, vertical tab, form feed, carriage return, space
  and the no-break space U+00A0; the remaining ones (U+1680, U+2000 to U+200A, U+2028,
  U+2029, U+202F, U+205F, U+3000, U+FEFF) lie outside the character type, so names that
  contain them are outside the model.\<close>

definition is_space :: "char \<Rightarrow> bool" where
  "is_space c = (c \<in> set [CHR 0x09, CHR 0x0A, CHR 0x0B, CHR 0x0C, CHR 0x0D, CHR '' '', CHR 0xA0])"

definition trim :: "string \<Rightarrow> string" where
  "trim s = rev (dropWhile is_space (rev (dropWhile is_space s)))"

text \<open>The regular expression of \<open>isValidVersion\<close>:
  \<^verbatim>\<open>^\d+\.\d+\.\d+(-[a-zA-Z0-9.-]+)?(\+[a-zA-Z0-9.-]+)?$\<close>.\<close>

definition is_digit :: "char \<Rightarrow> bool" where
  "is_digit c = (c \<in> set ''0123456789'')"

definition is_tag_char :: "char \<Rightarrow> bool" where
  "is_tag_char c =
     (c \<in> set ''abcdefghijklmnopqrstuvwxyzABCDEFGHIJKLMNOPQRSTUVWXYZ0123456789.-'')"

definition is_tag :: "string \<Rightarrow> bool" where
  "is_tag s = (s \<noteq> [] \<and> list_all is_tag_char s)"

text \<open>After the third number: nothing, a prerelease tag, a build tag, or both.\<close>

definition version_suffix_ok :: "string \<Rightarrow> bool" where
  "version_suffix_ok s =
     (case s of
        [] \<Rightarrow> True
      | c # r \<Rightarrow>
          if c = CHR ''+'' then is_tag r
          else if c = CHR ''-'' then
            (let pre = takeWhile (\<lambda>d. d \<noteq> CHR ''+'') r; post = dropWhile (\<lambda>d. d \<noteq> CHR ''+'') r
             in is_tag pre \<and> (post = [] \<or> is_tag (tl post)))
          else False)"

definition isValidVersion :: "string \<Rightarrow> bool" where
  "isValidVersion v =
     (let n1 = takeWhile is_digit v; r1 = dropWhile is_digit v
      in n1 \<noteq> [] \<and>
         (case r1 of
            [] \<Rightarrow> False
          | c1 # t1 \<Rightarrow>
              c1 = CHR ''.'' \<and>
              (let n2 = takeWhile is_digit t1; r2 = dropWhile is_digit t1
               in n2 \<noteq> [] \<and>
                  (case r2 of
                     [] \<Rightarrow> False
                   | c2 # t2 \<Rightarrow>
                       c2 = CHR ''.'' \<and>
                       (let n3 = takeWhile is_digit t2; r3 = dropWhile is_digit t2
                        in n3 \<noteq> [] \<and> version_suffix_ok r3)))))"

definition schema_errors :: "WorkflowDefinition \<Rightarrow> ValidationError list" where
  "schema_errors w =
     (if wf_id w = [] then
        [\<lparr>code = ''MISSING_FIELD'', message = ''Workflow ID is required'',
          ve_nodeId = None, ve_edgeId = None, ve_field = Some ''id''\<rparr>]
      else [])
     @ (if wf_name w = [] \<or> trim (wf_name w) = [] then
        [\<lparr>code = ''MISSING_FIELD'', message = ''Workflow name is required'',
          ve_nodeId = None, ve_edgeId = None, ve_field = Some ''name''\<rparr>]
      else [])
     @ (if str_or (wf_version w) [] = [] then
        [\<lparr>code = ''MISSING_FIELD'', message = ''Workflow version is required'',
          ve_nodeId = None, ve_edgeId = None, ve_field = Some ''version''\<rparr>]
      else [])"

definition schema_warnings :: "WorkflowDefinition \<Rightarrow> ValidationWarning list" where
  "schema_warnings w =
     (let v = str_or (wf_version w) []
      in if v \<noteq> [] \<and> \<not> isValidVersion v then
           [\<lparr>w_code = ''INVALID_VERSION_FORMAT'',
             w_message = ''Version \"'' @ v @ ''\" does not follow semantic versioning'',
             w_nodeId = None,
             suggestion = Some ''Use semantic versioning format (e.g., 1.0.0)''\<rparr>]
         else [])"

subsection \<open>Nodes\<close>

text \<open>One iteration of the loop of \<open>validateNodes\<close>; \<open>seen\<close> is the set \<open>nodeIds\<close> and
  \<open>registry\<close> the keys of the node registry. A node without a type skips the remaining checks
  (\<open>continue\<close>).\<close>

definition node_errors :: "string list \<Rightarrow> string set \<Rightarrow> WorkflowNode \<Rightarrow> ValidationError list" where
  "node_errors registry seen n =
     (if node_id n \<in> seen then
        [\<lparr>code = ''DUPLICATE_NODE_ID'', message = ''Duplicate node ID: '' @ node_id n,
          ve_nodeId = Some (node_id n), ve_edgeId = None, ve_field = None\<rparr>]
      else [])
     @ (if node_id n = [] then
        [\<lparr>code = ''MISSING_FIELD'', message = ''Node ID is required'',
          ve_nodeId = Some (node_id n), ve_edgeId = None, ve_field = Some ''id''\<rparr>]
      else [])
     @ (if node_type n = [] then
        [\<lparr>code = ''MISSING_FIELD'', message = ''Node type is required'',
          ve_nodeId = Some (node_id n), ve_edgeId = None, ve_field = Some ''type''\<rparr>]
      else if registry \<noteq> [] \<and> node_type n \<notin> set registry then
        [\<lparr>code = ''UNKNOWN_NODE_TYPE'', message = ''Unknown node type: '' @ node_type n,
          ve_nodeId = Some (node_id n), ve_edgeId = None, ve_field = None\<rparr>]
      else [])"

definition is_number :: "jsval \<Rightarrow> bool" where
  "is_number v = (case v of JNum _ \<Rightarrow> True | _ \<Rightarrow> False)"

definition is_object :: "jsval \<Rightarrow> bool" where
  "is_object v = (case v of JObj _ \<Rightarrow> True | JArr _ \<Rightarrow> True | _ \<Rightarrow> False)"

definition node_warnings :: "WorkflowNode \<Rightarrow> ValidationWarning list" where
  "node_warnings n =
     (if node_type n = [] then []
      else
        (if (case position n of None \<Rightarrow> True
             | Some p \<Rightarrow> \<not> is_number (pos_x p) \<or> \<not> is_number (pos_y p)) then
           [\<lparr>w_code = ''INVALID_POSITION'',
             w_message = ''Node '' @ node_id n @ '' has invalid position'',
             w_nodeId = Some (node_id n), suggestion = Some ''Provide valid x and y coordinates''\<rparr>]
         else [])
        @ (if \<not> is_object (config n) then
           [\<lparr>w_code = ''MISSING_CONFIG'',
             w_message = ''Node '' @ node_id n @ '' has no configuration'',
             w_nodeId = Some (node_id n), suggestion = Some ''Add node configuration''\<rparr>]
         else [])
        @ concat (map (\<lambda>(inputName, mapping).
             if im_from mapping = [] \<or> im_output mapping = [] then
               [\<lparr>w_code = ''INCOMPLETE_INPUT_MAPPING'',
                 w_message = ''Node '' @ node_id n @ '' input \"'' @ inputName
                             @ ''\" has incomplete mapping'',
                 w_nodeId = Some (node_id n), suggestion = Some ''Complete the input mapping''\<rparr>]
             else []) (node_inputs n)))"

fun validateNodes ::
  "string list \<Rightarrow> string set \<Rightarrow> WorkflowNode list \<Rightarrow> ValidationError list \<times> ValidationWarning list" where
  "validateNodes registry seen [] = ([], [])"
| "validateNodes registry seen (n # ns) =
     (let (es, ws) = validateNodes registry (insert (node_id n) seen) ns
      in (node_errors registry seen n @ es, node_warnings n @ ws))"

subsection \<open>Edges\<close>

definition duplicateEdge :: "WorkflowEdge list \<Rightarrow> WorkflowEdge \<Rightarrow> WorkflowEdge option" where
  "duplicateEdge edges e =
     find (\<lambda>d. edge_id d \<noteq> edge_id e \<and> source d = source e \<and> sourceOutput d = sourceOutput e
               \<and> target d = target e \<and> targetInput d = targetInput e) edges"

definition edge_errors :: "string set \<Rightarrow> string set \<Rightarrow> WorkflowEdge \<Rightarrow> ValidationError list" where
  "edge_errors nodeIds seen e =
     (if edge_id e \<in> seen then
        [\<lparr>code = ''DUPLICATE_EDGE_ID'', message = ''Duplicate edge ID: '' @ edge_id e,
          ve_nodeId = None, ve_edgeId = Some (edge_id e), ve_field = None\<rparr>]
      else [])
     @ (if source e = [] then
        [\<lparr>code = ''MISSING_FIELD'', message = ''Edge source is required'',
          ve_nodeId = None, ve_edgeId = Some (edge_id e), ve_field = Some ''source''\<rparr>]
      else if target e = [] then
        [\<lparr>code = ''MISSING_FIELD'', message = ''Edge target is required'',
          ve_nodeId = None, ve_edgeId = Some (edge_id e), ve_field = Some ''target''\<rparr>]
      else
        (if source e \<notin> nodeIds then
           [\<lparr>code = ''INVALID_SOURCE_NODE'',
             message = ''Source node \"'' @ source e @ ''\" does not exist'',
             ve_nodeId = Some (source e), ve_edgeId = Some (edge_id e), ve_field = None\<rparr>]
         else [])
        @ (if target e \<notin> nodeIds then
           [\<lparr>code = ''INVALID_TARGET_NODE'',
             message = ''Target node \"'' @ target e @ ''\" does not exist'',
             ve_nodeId = Some (target e), ve_edgeId = Some (edge_id e), ve_field = None\<rparr>]
         else [])
        @ (if source e = target e then
           [\<lparr>code = ''SELF_LOOP'',
             message = ''Edge '' @ edge_id e @ '' creates a self-loop on node '' @ source e,
             ve_nodeId = Some (source e), ve_edgeId = Some (edge_id e), ve_field = None\<rparr>]
         else []))"

definition edge_warnings :: "WorkflowEdge list \<Rightarrow> WorkflowEdge \<Rightarrow> ValidationWarning list" where
  "edge_warnings edges e =
     (if source e = [] \<or> target e = [] then []
      else
        (if sourceOutput e = [] then
           [\<lparr>w_code = ''MISSING_SOURCE_OUTPUT'',
             w_message = ''Edge '' @ edge_id e @ '' missing source output name'',
             w_nodeId = Some (source e), suggestion = None\<rparr>]
         else [])
        @ (if targetInput e = [] then
           [\<lparr>w_code = ''MISSING_TARGET_INPUT'',
             w_message = ''Edge '' @ edge_id e @ '' missing target input name'',
             w_nodeId = Some (target e), suggestion = None\<rparr>]
         else [])
        @ (case duplicateEdge edges e of
             None \<Rightarrow> []
           | Some d \<Rightarrow>
               [\<lparr>w_code = ''DUPLICATE_CONNECTION'',
                 w_message = ''Edge '' @ edge_id e @ '' is duplicate of edge '' @ edge_id d,
                 w_nodeId = None, suggestion = Some ''Remove duplicate connection''\<rparr>]))"

fun validateEdges_loop ::
  "WorkflowEdge list \<Rightarrow> string set \<Rightarrow> string set \<Rightarrow> WorkflowEdge list
     \<Rightarrow> ValidationError list \<times> ValidationWarning list" where
  "validateEdges_loop edges nodeIds seen [] = ([], [])"
| "validateEdges_loop edges nodeIds seen (e # rest) =
     (let (es, ws) = validateEdges_loop edges nodeIds (insert (edge_id e) seen) rest
      in (edge_errors nodeIds seen e @ es, edge_warnings edges e @ ws))"

definition validateEdges ::
  "WorkflowEdge list \<Rightarrow> WorkflowNode list \<Rightarrow> ValidationError list \<times> ValidationWarning list" where
  "validateEdges edges nodes = validateEdges_loop edges (set (map node_id nodes)) {} edges"

subsection \<open>Cycle detection\<close>

text \<open>
  The adjacency table is a \<open>Map\<close> from node id to the array of successors. Every node starts
  with an empty array; every edge whose \<open>enabled\<close> field is not \<open>false\<close> appends its target to
  the array of its source. \<open>adj_get\<close> is \<open>adjacency.get(id) || []\<close>.
\<close>

type_synonym adjacency = "string \<rightharpoonup> string list"

definition adj_get :: "adjacency \<Rightarrow> string \<Rightarrow> string list" where
  "adj_get adj v = (case adj v of None \<Rightarrow> [] | Some ns \<Rightarrow> ns)"

definition add_edge :: "WorkflowEdge \<Rightarrow> adjacency \<Rightarrow> adjacency" where
  "add_edge e adj =
     (if enabled e \<noteq> Some False then adj(source e \<mapsto> adj_get adj (source e) @ [target e])
      else adj)"

definition build_adjacency :: "WorkflowNode list \<Rightarrow> WorkflowEdge list \<Rightarrow> adjacency" where
  "build_adjacency nodes edges =
     fold add_edge edges (fold (\<lambda>n adj. adj(node_id n \<mapsto> [])) nodes Map.empty)"

text \<open>\<open>path.indexOf(x)\<close> and \<open>path.slice(i)\<close>, with JavaScript's reading of a negative
  start.\<close>

definition indexOf :: "'a list \<Rightarrow> 'a \<Rightarrow> int" where
  "indexOf xs x = (case findIndex (\<lambda>y. y = x) xs of None \<Rightarrow> - 1 | Some i \<Rightarrow> int i)"

definition slice_from :: "int \<Rightarrow> 'a list \<Rightarrow> 'a list" where
  "slice_from i xs =
     (if i < 0 then drop (nat (int (length xs) + i)) xs else drop (nat i) xs)"

record dfs_state =
  visited :: "string set"
  recursionStack :: "string set"
  cycles :: "string list list"

text \<open>
  The recursive closure \<open>dfs\<close> of \<open>detectCycles\<close>. \<open>dfs_cycles\<close> is one call: it marks the node,
  runs the loop over its successors (\<open>dfs_neighbors\<close>) on the extended path and takes the node
  off the recursion stack. The first argument bounds the depth of the recursion; \<open>None\<close> means
  that the bound was reached. (The size of JavaScript's call stack is not modelled.)
\<close>

fun dfs_cycles :: "nat \<Rightarrow> adjacency \<Rightarrow> string \<Rightarrow> string list \<Rightarrow> dfs_state \<Rightarrow> dfs_state option"
  and dfs_neighbors ::
    "nat \<Rightarrow> adjacency \<Rightarrow> string list \<Rightarrow> string list \<Rightarrow> dfs_state \<Rightarrow> dfs_state option" where
  "dfs_cycles 0 adj nodeId path st = None"
| "dfs_cycles (Suc fuel) adj nodeId path st =
     (case dfs_neighbors fuel adj (path @ [nodeId]) (adj_get adj nodeId)
             (st\<lparr>visited := insert nodeId (visited st),
                 recursionStack := insert nodeId (recursionStack st)\<rparr>) of
        None \<Rightarrow> None
      | Some st' \<Rightarrow> Some (st'\<lparr>recursionStack := recursionStack st' - {nodeId}\<rparr>))"
| "dfs_neighbors fuel adj path [] st = Some st"
| "dfs_neighbors fuel adj path (neighbor # rest) st =
     (if neighbor \<notin> visited st then
        (case dfs_cycles fuel adj neighbor path st of
           None \<Rightarrow> None
         | Some st' \<Rightarrow> dfs_neighbors fuel adj path rest st')
      else if neighbor \<in> recursionStack st then
        dfs_neighbors fuel adj path rest
          (st\<lparr>cycles := cycles st @ [slice_from (indexOf path neighbor) path @ [neighbor]]\<rparr>)
      else dfs_neighbors fuel adj path rest st)"

text \<open>The loop over the declared nodes that starts a search at every node not yet visited.\<close>

fun detect_roots :: "nat \<Rightarrow> adjacency \<Rightarrow> WorkflowNode list \<Rightarrow> dfs_state \<Rightarrow> dfs_state option" where
  "detect_roots fuel adj [] st = Some st"
| "detect_roots fuel adj (n # ns) st =
     (if node_id n \<notin> visited st then
        (case dfs_cycles fuel adj (node_id n) [] st of
           None \<Rightarrow> None
         | Some st' \<Rightarrow> detect_roots fuel adj ns st')
      else detect_roots fuel adj ns st)"

text \<open>A recursion never nests deeper than the number of node ids that occur in the graph.\<close>

definition dfs_fuel :: "WorkflowNode list \<Rightarrow> WorkflowEdge list \<Rightarrow> nat" where
  "dfs_fuel nodes edges = Suc (length nodes + length edges)"

definition detectCycles :: "WorkflowNode list \<Rightarrow> WorkflowEdge list \<Rightarrow> string list list option" where
  "detectCycles nodes edges =
     map_option cycles
       (detect_roots (dfs_fuel nodes edges) (build_adjacency nodes edges) nodes
          \<lparr>visited = {}, recursionStack = {}, cycles = []\<rparr>)"

subsection \<open>Depth\<close>

record depth_state =
  memo :: "string \<rightharpoonup> nat"
  visiting :: "string set"

text \<open>
  The memoised closure \<open>dfs\<close> of \<open>calculateMaxDepth\<close>; \<open>depth_children\<close> is its loop
  \<open>maxChildDepth = Math.max(maxChildDepth, dfs(neighbor))\<close>.
\<close>

fun depth_dfs :: "nat \<Rightarrow> adjacency \<Rightarrow> string \<Rightarrow> depth_state \<Rightarrow> (nat \<times> depth_state) option"
  and depth_children ::
    "nat \<Rightarrow> adjacency \<Rightarrow> string list \<Rightarrow> nat \<Rightarrow> depth_state \<Rightarrow> (nat \<times> depth_state) option" where
  "depth_dfs 0 adj nodeId st = None"
| "depth_dfs (Suc fuel) adj nodeId st =
     (case memo st nodeId of
        Some d \<Rightarrow> Some (d, st)
      | None \<Rightarrow>
          if nodeId \<in> visiting st then Some (0, st)
          else
            (let st1 = st\<lparr>visiting := insert nodeId (visiting st)\<rparr>;
                 neighbors = adj_get adj nodeId
             in if neighbors = [] then
                  Some (1, st1\<lparr>memo := (memo st1)(nodeId \<mapsto> 1),
                                visiting := visiting st1 - {nodeId}\<rparr>)
                else
                  (case depth_children fuel adj neighbors 0 st1 of
                     None \<Rightarrow> None
                   | Some (maxChildDepth, st2) \<Rightarrow>
                       Some (1 + maxChildDepth,
                             st2\<lparr>memo := (memo st2)(nodeId \<mapsto> 1 + maxChildDepth),
                                 visiting := visiting st2 - {nodeId}\<rparr>))))"
| "depth_children fuel adj [] maxChildDepth st = Some (maxChildDepth, st)"
| "depth_children fuel adj (neighbor # rest) maxChildDepth st =
     (case depth_dfs fuel adj neighbor st of
        None \<Rightarrow> None
      | Some (d, st') \<Rightarrow> depth_children fuel adj rest (max maxChildDepth d) st')"

fun depth_roots ::
  "nat \<Rightarrow> adjacency \<Rightarrow> WorkflowNode list \<Rightarrow> nat \<Rightarrow> depth_state \<Rightarrow> (nat \<times> depth_state) option" where
  "depth_roots fuel adj [] maxDepth st = Some (maxDepth, st)"
| "depth_roots fuel adj (n # ns) maxDepth st =
     (if memo st (node_id n) = None then
        (case depth_dfs fuel adj (node_id n) st of
           None \<Rightarrow> None
         | Some (d, st') \<Rightarrow> depth_roots fuel adj ns (max maxDepth d) st')
      else depth_roots fuel adj ns maxDepth st)"

definition calculateMaxDepth :: "WorkflowDefinition \<Rightarrow> nat option" where
  "calculateMaxDepth w =
     (if wf_nodes w = [] then Some 0
      else
        (case detectCycles (wf_nodes w) (wf_edges w) of
           None \<Rightarrow> None
         | Some cs \<Rightarrow>
             if cs \<noteq> [] then Some 0
             else map_option fst
                    (depth_roots (dfs_fuel (wf_nodes w) (wf_edges w))
                       (build_adjacency (wf_nodes w) (wf_edges w)) (wf_nodes w) 0
                       \<lparr>memo = Map.empty, visiting = {}\<rparr>)))"

subsection \<open>Topology, settings, statistics\<close>

fun join :: "string \<Rightarrow> string list \<Rightarrow> string" where
  "join sep [] = []"
| "join sep [x] = x"
| "join sep (x # y # ys) = x @ sep @ join sep (y # ys)"

definition cycle_error :: "string list \<Rightarrow> ValidationError" where
  "cycle_error cycle =
     \<lparr>code = ''CIRCULAR_DEPENDENCY'',
      message = ''Circular dependency detected: '' @ join '' -> '' cycle,
      ve_nodeId = (case cycle of [] \<Rightarrow> None | c # _ \<Rightarrow> Some c),
      ve_edgeId = None, ve_field = None\<rparr>"

definition nodesWithInputs :: "WorkflowEdge list \<Rightarrow> string set" where
  "nodesWithInputs edges = set (map target edges)"

definition nodesWithOutputs :: "WorkflowEdge list \<Rightarrow> string set" where
  "nodesWithOutputs edges = set (map source edges)"

definition isolated_warning :: "WorkflowNode \<Rightarrow> ValidationWarning" where
  "isolated_warning n =
     \<lparr>w_code = ''ISOLATED_NODE'',
      w_message = ''Node '' @ node_id n @ '' is isolated (no inputs or outputs)'',
      w_nodeId = Some (node_id n), suggestion = Some ''Connect the node or remove it''\<rparr>"

definition topology_warnings :: "WorkflowNode list \<Rightarrow> WorkflowEdge list \<Rightarrow> ValidationWarning list" where
  "topology_warnings nodes edges =
     map isolated_warning
       (filter (\<lambda>n. node_id n \<notin> nodesWithInputs edges \<and> node_id n \<notin> nodesWithOutputs edges) nodes)
     @ (if filter (\<lambda>n. node_id n \<notin> nodesWithInputs edges) nodes = [] \<and> nodes \<noteq> [] then
          [\<lparr>w_code = ''NO_START_NODE'',
            w_message = ''Workflow has no start node (all nodes have inputs)'',
            w_nodeId = None,
            suggestion = Some ''Add a node without inputs as the starting point''\<rparr>]
        else [])
     @ (if filter (\<lambda>n. node_id n \<notin> nodesWithOutputs edges) nodes = [] \<and> nodes \<noteq> [] then
          [\<lparr>w_code = ''NO_END_NODE'',
            w_message = ''Workflow has no end node (all nodes have outputs)'',
            w_nodeId = None,
            suggestion = Some ''Add a node without outputs as the end point''\<rparr>]
        else [])"

definition validateTopology ::
  "WorkflowDefinition \<Rightarrow> (ValidationError list \<times> ValidationWarning list) option" where
  "validateTopology w =
     (if wf_nodes w = [] then
        Some ([], [\<lparr>w_code = ''EMPTY_WORKFLOW'', w_message = ''Workflow has no nodes'',
                    w_nodeId = None, suggestion = Some ''Add at least one node''\<rparr>])
      else
        (case detectCycles (wf_nodes w) (wf_edges w) of
           None \<Rightarrow> None
         | Some cs \<Rightarrow> Some (map cycle_error cs, topology_warnings (wf_nodes w) (wf_edges w))))"

definition settings_errors :: "WorkflowDefinition \<Rightarrow> ValidationError list" where
  "settings_errors w =
     (case settings w of
        None \<Rightarrow> []
      | Some s \<Rightarrow>
          (case maxConcurrency s of
             None \<Rightarrow> []
           | Some c \<Rightarrow>
               if c < 1 then
                 [\<lparr>code = ''INVALID_SETTING'', message = ''maxConcurrency must be at least 1'',
                   ve_nodeId = None, ve_edgeId = None,
                   ve_field = Some ''settings.maxConcurrency''\<rparr>]
               else [])
          @ (case retryPolicy s of
               None \<Rightarrow> []
             | Some p \<Rightarrow>
                 if maxRetries p < 0 then
                   [\<lparr>code = ''INVALID_SETTING'', message = ''maxRetries cannot be negative'',
                     ve_nodeId = None, ve_edgeId = None,
                     ve_field = Some ''settings.retryPolicy.maxRetries''\<rparr>]
                 else []))"

definition settings_warnings :: "WorkflowDefinition \<Rightarrow> ValidationWarning list" where
  "settings_warnings w =
     (case settings w of
        None \<Rightarrow> []
      | Some s \<Rightarrow>
          (case maxConcurrency s of
             None \<Rightarrow> []
           | Some c \<Rightarrow>
               if c > 100 then
                 [\<lparr>w_code = ''HIGH_CONCURRENCY'',
                   w_message = ''maxConcurrency ('' @ show_int c @ '') is very high'',
                   w_nodeId = None,
                   suggestion = Some ''Consider reducing to avoid resource exhaustion''\<rparr>]
               else [])
          @ (case timeout s of
               None \<Rightarrow> []
             | Some t \<Rightarrow>
                 if t < 1000 then
                   [\<lparr>w_code = ''LOW_TIMEOUT'',
                     w_message = ''Timeout ('' @ show_int t @ ''ms) is very low'',
                     w_nodeId = None,
                     suggestion = Some ''Consider increasing timeout to avoid premature termination''\<rparr>]
                 else [])
          @ (case retryPolicy s of
               None \<Rightarrow> []
             | Some p \<Rightarrow>
                 if maxRetries p > 10 then
                   [\<lparr>w_code = ''HIGH_RETRY_COUNT'',
                     w_message = ''maxRetries ('' @ show_int (maxRetries p) @ '') is very high'',
                     w_nodeId = None, suggestion = Some ''Consider reducing retry count''\<rparr>]
                 else []))"

record validation_stats =
  stat_totalNodes :: nat
  stat_totalEdges :: nat
  startNodes :: nat
  endNodes :: nat
  maxDepth :: nat
  estimatedExecutionTime :: "int option"

definition calculateStats :: "WorkflowDefinition \<Rightarrow> validation_stats option" where
  "calculateStats w =
     (case calculateMaxDepth w of
        None \<Rightarrow> None
      | Some d \<Rightarrow>
          Some \<lparr>stat_totalNodes = length (wf_nodes w),
                stat_totalEdges = length (wf_edges w),
                startNodes =
                  length (filter (\<lambda>n. node_id n \<notin> nodesWithInputs (wf_edges w)) (wf_nodes w)),
                endNodes =
                  length (filter (\<lambda>n. node_id n \<notin> nodesWithOutputs (wf_edges w)) (wf_nodes w)),
                maxDepth = d,
                estimatedExecutionTime = None\<rparr>)"

record WorkflowValidationResult =
  valid :: bool
  errors :: "ValidationError list"
  warnings :: "ValidationWarning list"
  result_stats :: validation_stats

text \<open>\<open>validate\<close>: the five phases append to the two lists in order; \<open>registry\<close> holds the keys
  of the node registry. The result is \<open>None\<close> only if one of the two searches ran into its
  depth bound.\<close>

definition validate :: "string list \<Rightarrow> WorkflowDefinition \<Rightarrow> WorkflowValidationResult option" where
  "validate registry w =
     (case validateTopology w of
        None \<Rightarrow> None
      | Some (topo_errors, topo_warnings) \<Rightarrow>
          (case calculateStats w of
             None \<Rightarrow> None
           | Some st \<Rightarrow>
               (let (nes, nws) = validateNodes registry {} (wf_nodes w);
                    (ees, ews) = validateEdges (wf_edges w) (wf_nodes w);
                    es = schema_errors w @ nes @ ees @ topo_errors @ settings_errors w;
                    ws = schema_warnings w @ nws @ ews @ topo_warnings @ settings_warnings w
                in Some \<lparr>valid = (es = []), errors = es, warnings = ws, result_stats = st\<rparr>)))"

section \<open>ExecutionHistory: the data model\<close>

text \<open>
  The two status enumerations and the record types of \<open>ExecutionHistory.ts\<close>. Optional
  fields are options. The optional \<open>performance\<close> block of an execution record is neither
  read nor written by the operations modelled here and is left out.
\<close>

datatype ExecutionStatus = PENDING | RUNNING | COMPLETED | FAILED | CANCELLED | PAUSED

datatype NodeExecutionStatus =
  NODE_PENDING | NODE_RUNNING | NODE_COMPLETED | NODE_FAILED | NODE_SKIPPED

record node_error =
  ne_message :: string
  ne_stack :: "string option"
  ne_code :: "string option"

record NodeExecutionRecord =
  nodeId :: string
  nodeName :: string
  nodeType :: string
  node_status :: NodeExecutionStatus
  node_startTime :: int
  node_endTime :: "int option"
  node_duration :: "int option"
  inputs :: jsval
  outputs :: jsval
  node_err :: "node_error option"
  retryCount :: "int option"
  logs :: "string list option"

datatype trigger_type = Manual | Schedule | Event | Api

record trigger_info =
  trigger_kind :: trigger_type
  userId :: "string option"
  userName :: "string option"
  trigger_data :: jsval

record execution_stats =
  totalNodes :: int
  completedNodes :: int
  failedNodes :: int
  skippedNodes :: int
  successRate :: "real option"

record execution_error =
  err_message :: string
  err_stack :: "string option"
  failedNodeId :: "string option"
  failedNodeName :: "string option"

record checkpoint =
  cp_nodeId :: string
  cp_timestamp :: int
  cp_state :: jsval

record WorkflowExecutionRecord =
  exec_id :: string
  workflowId :: string
  workflowName :: string
  workflowVersion :: "string option"
  status :: ExecutionStatus
  startTime :: int
  endTime :: "int option"
  duration :: "int option"
  trigger :: trigger_info
  exec_context :: jsval
  nodes :: "NodeExecutionRecord list"
  stats :: execution_stats
  exec_err :: "execution_error option"
  checkpoints :: "checkpoint list option"
  createdAt :: int
  updatedAt :: int

section \<open>ExecutionHistoryStorage\<close>

text \<open>
  The storage directory with its cache is a finite map from execution id to record: \<open>get\<close>
  is the lookup and \<open>save\<close> stamps \<open>updatedAt\<close> and stores the record under its own id.
  \<open>Date.now()\<close> is the argument \<open>now\<close> of every operation; the durable store is an
  external collaborator and its I/O failures are not part of the model.
\<close>

type_synonym store = "string \<rightharpoonup> WorkflowExecutionRecord"

datatype history_error = RecordNotFound string

definition get :: "store \<Rightarrow> string \<Rightarrow> WorkflowExecutionRecord option" where
  "get s executionId = s executionId"

definition save :: "int \<Rightarrow> WorkflowExecutionRecord \<Rightarrow> store \<Rightarrow> store" where
  "save now r s = s(exec_id r \<mapsto> r\<lparr>updatedAt := now\<rparr>)"

text \<open>\<open>createExecution\<close>: the id is built from the workflow id, the clock and a random suffix
  (the argument \<open>rnd\<close>); \<open>totalNodes\<close> is the length of the workflow's node list. The new
  record is returned together with the store that holds it.\<close>

definition createExecution ::
  "int \<Rightarrow> string \<Rightarrow> WorkflowDefinition \<Rightarrow> trigger_info \<Rightarrow> jsval option \<Rightarrow> store
     \<Rightarrow> WorkflowExecutionRecord \<times> store" where
  "createExecution now rnd w trg ctx s =
     (let r = \<lparr> exec_id = ''exec_'' @ wf_id w @ ''_'' @ show_int now @ ''_'' @ rnd,
                 workflowId = wf_id w,
                 workflowName = wf_name w,
                 workflowVersion = wf_version w,
                 status = PENDING,
                 startTime = now,
                 endTime = None,
                 duration = None,
                 trigger = trg,
                 exec_context = (case ctx of None \<Rightarrow> JObj [] | Some c \<Rightarrow> js_or c (JObj [])),
                 nodes = [],
                 stats = \<lparr> totalNodes = int (length (wf_nodes w)), completedNodes = 0,
                           failedNodes = 0, skippedNodes = 0, successRate = None \<rparr>,
                 exec_err = None,
                 checkpoints = None,
                 createdAt = now,
                 updatedAt = now \<rparr>
      in (r\<lparr>updatedAt := now\<rparr>, save now r s))"

definition is_terminal :: "ExecutionStatus \<Rightarrow> bool" where
  "is_terminal st = (st \<in> set [COMPLETED, FAILED, CANCELLED])"

text \<open>The body of \<open>updateStatus\<close> between \<open>get\<close> and \<open>save\<close>, statement by statement.\<close>

definition set_status ::
  "int \<Rightarrow> ExecutionStatus \<Rightarrow> execution_error option \<Rightarrow> WorkflowExecutionRecord
     \<Rightarrow> WorkflowExecutionRecord" where
  "set_status now st err r =
     (let r1 = r\<lparr>status := st\<rparr>;
          r2 = (if st = RUNNING \<and> startTime r1 = 0 then r1\<lparr>startTime := now\<rparr> else r1);
          r3 = (if is_terminal st
                then r2\<lparr>endTime := Some now, duration := Some (now - startTime r2)\<rparr>
                else r2);
          r4 = (case err of None \<Rightarrow> r3 | Some e \<Rightarrow> r3\<lparr>exec_err := Some e\<rparr>)
      in if totalNodes (stats r4) > 0
         then r4\<lparr>stats := (stats r4)\<lparr>successRate :=
                 Some (real_of_int (completedNodes (stats r4)) / real_of_int (totalNodes (stats r4)))\<rparr>\<rparr>
         else r4)"

definition updateStatus ::
  "int \<Rightarrow> string \<Rightarrow> ExecutionStatus \<Rightarrow> execution_error option \<Rightarrow> store
     \<Rightarrow> history_error + store" where
  "updateStatus now executionId st err s =
     (case get s executionId of
        None \<Rightarrow> Inl (RecordNotFound executionId)
      | Some r \<Rightarrow> Inr (save now (set_status now st err r) s))"

text \<open>The upsert of \<open>addNodeExecution\<close> and the recount of the three counters.\<close>

definition upsert_node :: "NodeExecutionRecord \<Rightarrow> NodeExecutionRecord list \<Rightarrow> NodeExecutionRecord list" where
  "upsert_node nr ns =
     (case findIndex (\<lambda>n. nodeId n = nodeId nr) ns of
        Some i \<Rightarrow> ns[i := nr]
      | None \<Rightarrow> ns @ [nr])"

definition count_status :: "NodeExecutionStatus \<Rightarrow> NodeExecutionRecord list \<Rightarrow> int" where
  "count_status st ns = int (length (filter (\<lambda>n. node_status n = st) ns))"

definition record_node :: "NodeExecutionRecord \<Rightarrow> WorkflowExecutionRecord \<Rightarrow> WorkflowExecutionRecord" where
  "record_node nr r =
     (let ns = upsert_node nr (nodes r)
      in r\<lparr>nodes := ns,
           stats := (stats r)\<lparr>completedNodes := count_status NODE_COMPLETED ns,
                              failedNodes := count_status NODE_FAILED ns,
                              skippedNodes := count_status NODE_SKIPPED ns\<rparr>\<rparr>)"

definition addNodeExecution ::
  "int \<Rightarrow> string \<Rightarrow> NodeExecutionRecord \<Rightarrow> store \<Rightarrow> history_error + store" where
  "addNodeExecution now executionId nr s =
     (case get s executionId of
        None \<Rightarrow> Inl (RecordNotFound executionId)
      | Some r \<Rightarrow> Inr (save now (record_node nr r) s))"

definition addCheckpoint ::
  "int \<Rightarrow> string \<Rightarrow> string \<Rightarrow> jsval \<Rightarrow> store \<Rightarrow> history_error + store" where
  "addCheckpoint now executionId nid st s =
     (case get s executionId of
        None \<Rightarrow> Inl (RecordNotFound executionId)
      | Some r \<Rightarrow>
          Inr (save now
                 (r\<lparr>checkpoints :=
                      Some ((case checkpoints r of None \<Rightarrow> [] | Some cs \<Rightarrow> cs)
                            @ [\<lparr>cp_nodeId = nid, cp_timestamp = now, cp_state = st\<rparr>])\<rparr>)
                 s))"


section \<open>ExecutionMonitor\<close>

text \<open>
  One entry of \<open>activeExecutions\<close>. \<open>nodeStatuses\<close> is a JavaScript \<open>Map\<close>: an association
  list in insertion order, in which \<open>set\<close> overwrites the value of a key already present.
  The log and metrics buffers play no part in the progress computation and are left out.
\<close>

record monitored =
  mon_record :: WorkflowExecutionRecord
  mon_startTime :: int
  lastUpdate :: int
  nodeStatuses :: "(string \<times> NodeExecutionStatus) list"

type_synonym monitor = "string \<rightharpoonup> monitored"

record ExecutionProgress =
  p_executionId :: string
  p_totalNodes :: int
  p_completedNodes :: int
  p_failedNodes :: int
  runningNodes :: int
  pendingNodes :: int
  progress :: real
  estimatedTimeRemaining :: "real option"

definition startMonitoring :: "int \<Rightarrow> WorkflowExecutionRecord \<Rightarrow> monitor \<Rightarrow> monitor" where
  "startMonitoring now r m =
     m(exec_id r \<mapsto> \<lparr>mon_record = r, mon_startTime = now, lastUpdate = now, nodeStatuses = []\<rparr>)"

definition count_of :: "NodeExecutionStatus \<Rightarrow> NodeExecutionStatus list \<Rightarrow> int" where
  "count_of st statuses = int (length (filter (\<lambda>s. s = st) statuses))"

definition getProgress :: "int \<Rightarrow> monitor \<Rightarrow> string \<Rightarrow> ExecutionProgress option" where
  "getProgress now m executionId =
     (case m executionId of
        None \<Rightarrow> None
      | Some execution \<Rightarrow>
          (let statuses = map snd (nodeStatuses execution);
               total = totalNodes (stats (mon_record execution));
               completed = count_of NODE_COMPLETED statuses;
               failed = count_of NODE_FAILED statuses;
               running = count_of NODE_RUNNING statuses;
               pending = total - completed - failed - running;
               prog = (if total > 0 then real_of_int completed / real_of_int total else 0)
           in Some \<lparr>p_executionId = executionId,
                    p_totalNodes = total,
                    p_completedNodes = completed,
                    p_failedNodes = failed,
                    runningNodes = running,
                    pendingNodes = pending,
                    progress = prog,
                    estimatedTimeRemaining =
                      (if completed > 0 \<and> prog < 1 then
                         Some (real_of_int (now - mon_startTime execution) / real_of_int completed
                               * real_of_int (total - completed))
                       else None)\<rparr>))"

datatype MonitorEventType =
    EXECUTION_STARTED | EXECUTION_UPDATED | EXECUTION_COMPLETED | EXECUTION_FAILED
  | EXECUTION_CANCELLED | EXECUTION_PAUSED
  | NODE_STARTED | NODE_COMPLETED_EVENT | NODE_FAILED_EVENT | NODE_SKIPPED_EVENT
  | PROGRESS_UPDATED | PERFORMANCE_UPDATED | LOG_ADDED

text \<open>\<open>updateNodeStatus\<close>: the new monitor and the types of the events emitted, in order.\<close>

definition updateNodeStatus ::
  "string \<Rightarrow> string \<Rightarrow> NodeExecutionStatus \<Rightarrow> monitor \<Rightarrow> monitor \<times> MonitorEventType list" where
  "updateNodeStatus executionId nid st m =
     (case m executionId of
        None \<Rightarrow> (m, [])
      | Some execution \<Rightarrow>
          (let previousStatus = map_of (nodeStatuses execution) nid;
               m' = m(executionId \<mapsto>
                      execution\<lparr>nodeStatuses := AList.update nid st (nodeStatuses execution)\<rparr>)
           in if previousStatus \<noteq> Some st then
                (case st of
                   NODE_RUNNING \<Rightarrow> (m', [NODE_STARTED, PROGRESS_UPDATED])
                 | NODE_COMPLETED \<Rightarrow> (m', [NODE_COMPLETED_EVENT, PROGRESS_UPDATED])
                 | NODE_FAILED \<Rightarrow> (m', [NODE_FAILED_EVENT, PROGRESS_UPDATED])
                 | NODE_SKIPPED \<Rightarrow> (m', [NODE_SKIPPED_EVENT, PROGRESS_UPDATED])
                 | NODE_PENDING \<Rightarrow> (m', []))
              else (m', [])))"


section \<open>AdvancedFeatures\<close>

subsection \<open>RollbackManager\<close>

record RollbackResult =
  success :: bool
  rolledBackTo :: string
  affectedNodes :: "string list"
  rb_message :: string
  rb_error :: "string option"

definition rollback_failure :: "string \<Rightarrow> string \<Rightarrow> string \<Rightarrow> RollbackResult" where
  "rollback_failure targetNodeId msg err =
     \<lparr>success = False, rolledBackTo = targetNodeId, affectedNodes = [],
      rb_message = msg, rb_error = Some err\<rparr>"

text \<open>
  \<open>rollback\<close> returns the result, the lines that \<open>rollbackNode\<close> writes to the console (one per
  compensated node, in the order of the calls) and the store after \<open>save\<close>. The hook itself
  only logs and waits, so the \<open>catch\<close> branch is reached by a failing store alone.
\<close>

definition rollback ::
  "int \<Rightarrow> string \<Rightarrow> string \<Rightarrow> store \<Rightarrow> RollbackResult \<times> string list \<times> store" where
  "rollback now executionId targetNodeId s =
     (case get s executionId of
        None \<Rightarrow>
          (rollback_failure targetNodeId ''Execution record not found'' ''EXECUTION_NOT_FOUND'', [], s)
      | Some r \<Rightarrow>
          (case find (\<lambda>c. cp_nodeId c = targetNodeId)
                  (case checkpoints r of None \<Rightarrow> [] | Some cs \<Rightarrow> cs) of
             None \<Rightarrow>
               (rollback_failure targetNodeId ''Checkpoint not found'' ''CHECKPOINT_NOT_FOUND'', [], s)
           | Some cp \<Rightarrow>
               (case findIndex (\<lambda>n. nodeId n = targetNodeId) (nodes r) of
                  None \<Rightarrow>
                    (rollback_failure targetNodeId ''Target node not found'' ''NODE_NOT_FOUND'', [], s)
                | Some targetNodeIndex \<Rightarrow>
                    (let nodesToRollback = drop (targetNodeIndex + 1) (nodes r);
                         affectedNodeIds = map nodeId nodesToRollback;
                         console = map (\<lambda>n. ''Rolling back node: '' @ nodeId n) (rev nodesToRollback);
                         kept = take (targetNodeIndex + 1) (nodes r);
                         tn = kept ! targetNodeIndex;
                         note = ''Rolled back from '' @ show_nat (length nodesToRollback)
                                @ '' subsequent nodes'';
                         tn' = tn\<lparr>logs := Some ((case logs tn of None \<Rightarrow> [] | Some l \<Rightarrow> l) @ [note])\<rparr>;
                         r' = r\<lparr>nodes := kept[targetNodeIndex := tn'], status := PAUSED\<rparr>
                     in (\<lparr>success = True, rolledBackTo = targetNodeId,
                          affectedNodes = affectedNodeIds,
                          rb_message = ''Successfully rolled back to node: '' @ targetNodeId,
                          rb_error = None\<rparr>,
                         console, save now r' s)))))"

subsection \<open>ResumeManager\<close>

record ResumeContext =
  rc_executionId :: string
  checkpointNodeId :: string
  resumeFromNode :: string
  rc_skippedNodes :: "string list"
  preservedState :: jsval

text \<open>The backward loop of \<open>getResumeContext\<close>: the last record with status COMPLETED.\<close>

definition lastCompletedNode :: "NodeExecutionRecord list \<Rightarrow> NodeExecutionRecord option" where
  "lastCompletedNode ns = find (\<lambda>n. node_status n = NODE_COMPLETED) (rev ns)"

definition getResumeContext :: "store \<Rightarrow> string \<Rightarrow> ResumeContext option" where
  "getResumeContext s executionId =
     (case get s executionId of
        None \<Rightarrow> None
      | Some r \<Rightarrow>
          (case lastCompletedNode (nodes r) of
             None \<Rightarrow>
               Some \<lparr>rc_executionId = executionId,
                     checkpointNodeId = [],
                     resumeFromNode = str_or (map_option nodeId (at_index (nodes r) 0)) [],
                     rc_skippedNodes = [],
                     preservedState = JObj []\<rparr>
           | Some lc \<Rightarrow>
               (let lastCheckpoint =
                      find (\<lambda>c. cp_nodeId c = nodeId lc)
                        (case checkpoints r of None \<Rightarrow> [] | Some cs \<Rightarrow> cs);
                    nextIndex =
                      (case findIndex (\<lambda>n. nodeId n = nodeId lc) (nodes r) of
                         None \<Rightarrow> 0 | Some i \<Rightarrow> i + 1);
                    nextNode = at_index (nodes r) nextIndex;
                    completedNodeIds =
                      map nodeId (filter (\<lambda>n. node_status n = NODE_COMPLETED) (nodes r))
                in Some \<lparr>rc_executionId = executionId,
                         checkpointNodeId = nodeId lc,
                         resumeFromNode = str_or (map_option nodeId nextNode) [],
                         rc_skippedNodes = completedNodeIds,
                         preservedState =
                           (case lastCheckpoint of
                              None \<Rightarrow> JObj []
                            | Some c \<Rightarrow> js_or (cp_state c) (JObj []))\<rparr>)))"

subsection \<open>RetryManager\<close>











section \<open>Graph notions used in the properties\<close>

text \<open>An enabled edge from \<open>u\<close> to \<open>v\<close>; a directed cycle is a closed walk of at least one
  edge along enabled edges, written as the list of its nodes with the first repeated at the
  end; a chain is a walk along enabled edges that starts at a declared node.\<close>

definition is_enabled :: "WorkflowEdge \<Rightarrow> bool" where
  "is_enabled e = (enabled e \<noteq> Some False)"

definition enabled_edge :: "WorkflowEdge list \<Rightarrow> string \<Rightarrow> string \<Rightarrow> bool" where
  "enabled_edge es u v = list_ex (\<lambda>e. is_enabled e \<and> source e = u \<and> target e = v) es"

definition directed_cycle :: "WorkflowEdge list \<Rightarrow> string list \<Rightarrow> bool" where
  "directed_cycle es p = (2 \<le> length p \<and> hd p = last p \<and> successively (enabled_edge es) p)"

definition chain :: "WorkflowDefinition \<Rightarrow> string list \<Rightarrow> bool" where
  "chain w p =
     (p \<noteq> [] \<and> hd p \<in> set (map node_id (wf_nodes w)) \<and> successively (enabled_edge (wf_edges w)) p)"

text \<open>The errors that report a cycle.\<close>

definition is_cycle_error :: "ValidationError \<Rightarrow> bool" where
  "is_cycle_error e = (code e = ''CIRCULAR_DEPENDENCY'')"

text \<open>The warnings of the three checks of \<open>validateTopology\<close> that look at the edges.\<close>

definition is_topology_warning :: "ValidationWarning \<Rightarrow> bool" where
  "is_topology_warning x =
     (w_code x = ''ISOLATED_NODE'' \<or> w_code x = ''NO_START_NODE'' \<or> w_code x = ''NO_END_NODE'')"

text \<open>Notions for the invariants of the two searches: the successor relation of an
  adjacency table, the nodes a search has finished, the node ids of a graph, and the longest
  walk from a node.\<close>

definition adj_rel :: "adjacency \<Rightarrow> (string \<times> string) set" where
  "adj_rel adj = {(u, v). v \<in> set (adj_get adj u)}"

definition finished :: "dfs_state \<Rightarrow> string set" where
  "finished st = visited st - recursionStack st"

definition closed_acyclic :: "(string \<times> string) set \<Rightarrow> string set \<Rightarrow> bool" where
  "closed_acyclic E F = (\<forall>x\<in>F. (\<forall>y. (x, y) \<in> E \<longrightarrow> y \<in> F) \<and> (x, x) \<notin> E\<^sup>+)"

definition dfs_extends :: "dfs_state \<Rightarrow> dfs_state \<Rightarrow> bool" where
  "dfs_extends st st' =
     (visited st \<subseteq> visited st' \<and> recursionStack st' = recursionStack st
      \<and> (\<exists>cs. cycles st' = cycles st @ cs))"

definition graph_ids :: "WorkflowNode list \<Rightarrow> WorkflowEdge list \<Rightarrow> string set" where
  "graph_ids ns es = set (map node_id ns) \<union> set (map target es)"

definition dfs_init :: dfs_state where
  "dfs_init = \<lparr>visited = {}, recursionStack = {}, cycles = []\<rparr>"

definition walk_from :: "adjacency \<Rightarrow> string \<Rightarrow> string list \<Rightarrow> bool" where
  "walk_from adj v p = (p \<noteq> [] \<and> hd p = v \<and> successively (\<lambda>a b. b \<in> set (adj_get adj a)) p)"

definition longest_from :: "adjacency \<Rightarrow> string \<Rightarrow> nat \<Rightarrow> bool" where
  "longest_from adj v d =
     ((\<exists>p. walk_from adj v p \<and> length p = d) \<and> (\<forall>p. walk_from adj v p \<longrightarrow> length p \<le> d))"

definition memo_ok :: "adjacency \<Rightarrow> (string \<rightharpoonup> nat) \<Rightarrow> bool" where
  "memo_ok adj m = (\<forall>x d. m x = Some d \<longrightarrow> longest_from adj x d)"

definition memo_bounded :: "(string \<rightharpoonup> nat) \<Rightarrow> (string \<rightharpoonup> nat) \<Rightarrow> nat \<Rightarrow> bool" where
  "memo_bounded m m' d = (\<forall>x e. m' x = Some e \<longrightarrow> m x = Some e \<or> e \<le> d)"

definition depth_init :: depth_state where
  "depth_init = \<lparr>memo = Map.empty, visiting = {}\<rparr>"

section \<open>Example data\<close>

text \<open>Small records, graphs and stores on which the properties below are evaluated.\<close>

definition ex_trigger :: trigger_info where
  "ex_trigger = \<lparr>trigger_kind = Manual, userId = None, userName = None, trigger_data = JUndefined\<rparr>"

definition ex_node :: "string \<Rightarrow> NodeExecutionStatus \<Rightarrow> NodeExecutionRecord" where
  "ex_node i st =
     \<lparr>nodeId = i, nodeName = i, nodeType = ''task'', node_status = st, node_startTime = 0,
      node_endTime = None, node_duration = None, inputs = JUndefined, outputs = JUndefined,
      node_err = None, retryCount = None, logs = None\<rparr>"

definition ex_wf_node :: "string \<Rightarrow> WorkflowNode" where
  "ex_wf_node i =
     \<lparr>node_id = i, node_type = ''task'', position = Some \<lparr>pos_x = JNum 0, pos_y = JNum 0\<rparr>,
      config = JObj [], node_inputs = []\<rparr>"

definition ex_edge :: "string \<Rightarrow> string \<Rightarrow> string \<Rightarrow> bool option \<Rightarrow> WorkflowEdge" where
  "ex_edge i a b en =
     \<lparr>edge_id = i, source = a, sourceOutput = ''out'', target = b, targetInput = ''in'',
      enabled = en\<rparr>"

definition ex_workflow :: "WorkflowNode list \<Rightarrow> WorkflowEdge list \<Rightarrow> WorkflowDefinition" where
  "ex_workflow ns es =
     \<lparr>wf_id = ''wf'', wf_name = ''demo'', wf_version = Some ''1.0.0'', wf_nodes = ns,
      wf_edges = es, settings = None\<rparr>"

text \<open>Sequencing of recorder calls and the lookup in their result.\<close>

definition and_then ::
  "history_error + store \<Rightarrow> (store \<Rightarrow> history_error + store) \<Rightarrow> history_error + store" where
  "and_then res f = (case res of Inl e \<Rightarrow> Inl e | Inr s \<Rightarrow> f s)"

definition record_in :: "history_error + store \<Rightarrow> string \<Rightarrow> WorkflowExecutionRecord option" where
  "record_in res executionId = (case res of Inl e \<Rightarrow> None | Inr s \<Rightarrow> s executionId)"

text \<open>An execution of a one-node workflow, created at time 100 in an empty store; its id is
  \<open>exec_wf_100_k3\<close>.\<close>

definition ex_record1 :: WorkflowExecutionRecord where
  "ex_record1 =
     fst (createExecution 100 ''k3'' (ex_workflow [ex_wf_node ''A''] []) ex_trigger None Map.empty)"

definition ex_store1 :: store where
  "ex_store1 =
     snd (createExecution 100 ''k3'' (ex_workflow [ex_wf_node ''A''] []) ex_trigger None Map.empty)"




text \<open>The progress scenario: ten nodes, of which six are completed, one has failed and one is
  running; and the one-node execution after its only node has completed.\<close>

definition ex_record10 :: WorkflowExecutionRecord where
  "ex_record10 =
     fst (createExecution 100 ''k3''
            (ex_workflow (map ex_wf_node [''n1'', ''n2'', ''n3'', ''n4'', ''n5'', ''n6'', ''n7'',
                                          ''n8'', ''n9'', ''n10'']) [])
            ex_trigger None Map.empty)"

definition ex_monitor10 :: monitor where
  "ex_monitor10 =
     fold (\<lambda>(n, st) m. fst (updateNodeStatus ''exec_wf_100_k3'' n st m))
       [(''n1'', NODE_RUNNING), (''n1'', NODE_COMPLETED), (''n2'', NODE_COMPLETED),
        (''n3'', NODE_COMPLETED), (''n4'', NODE_COMPLETED), (''n5'', NODE_COMPLETED),
        (''n6'', NODE_COMPLETED), (''n7'', NODE_FAILED), (''n8'', NODE_RUNNING)]
       (startMonitoring 1000 ex_record10 Map.empty)"

definition ex_monitor1 :: monitor where
  "ex_monitor1 =
     fst (updateNodeStatus ''exec_wf_100_k3'' ''A'' NODE_COMPLETED
            (startMonitoring 1000 ex_record1 Map.empty))"

text \<open>Records with a given node list and checkpoint list, stored under \<open>exec_wf_100_k3\<close>.\<close>

definition ex_record_with :: "NodeExecutionRecord list \<Rightarrow> checkpoint list \<Rightarrow> WorkflowExecutionRecord" where
  "ex_record_with ns cps = ex_record1\<lparr>nodes := ns, checkpoints := Some cps\<rparr>"

definition ex_store_with :: "NodeExecutionRecord list \<Rightarrow> checkpoint list \<Rightarrow> store" where
  "ex_store_with ns cps = Map.empty(''exec_wf_100_k3'' \<mapsto> ex_record_with ns cps)"

definition ex_checkpoint :: "string \<Rightarrow> jsval \<Rightarrow> checkpoint" where
  "ex_checkpoint nid st = \<lparr>cp_nodeId = nid, cp_timestamp = 150, cp_state = st\<rparr>"

text \<open>The note that \<open>rollback\<close> appends to the log of the target node.\<close>

definition rollback_note :: "nat \<Rightarrow> string" where
  "rollback_note k = ''Rolled back from '' @ show_nat k @ '' subsequent nodes''"

text \<open>A chain of three nodes, two paths of two hops that meet in one sink, and a two-node
  cycle whose closing edge carries the given \<open>enabled\<close> flag.\<close>

definition wf_chain3 :: WorkflowDefinition where
  "wf_chain3 = ex_workflow [ex_wf_node ''A'', ex_wf_node ''B'', ex_wf_node ''C'']
                 [ex_edge ''e1'' ''A'' ''B'' None, ex_edge ''e2'' ''B'' ''C'' (Some True)]"

definition wf_diamond :: WorkflowDefinition where
  "wf_diamond = ex_workflow [ex_wf_node ''A'', ex_wf_node ''B'', ex_wf_node ''C'', ex_wf_node ''D'']
                 [ex_edge ''e1'' ''A'' ''B'' None, ex_edge ''e2'' ''A'' ''C'' None,
                  ex_edge ''e3'' ''B'' ''D'' None, ex_edge ''e4'' ''C'' ''D'' None]"

definition wf_cycle :: "bool option \<Rightarrow> WorkflowDefinition" where
  "wf_cycle en = ex_workflow [ex_wf_node ''A'', ex_wf_node ''B'']
                 [ex_edge ''e1'' ''A'' ''B'' None, ex_edge ''e2'' ''B'' ''A'' en]"

text \<open>A chain of three nodes whose second edge is disabled, and the same graph with that edge
  removed.\<close>

definition wf_disabled_tail :: WorkflowDefinition where
  "wf_disabled_tail = ex_workflow [ex_wf_node ''A'', ex_wf_node ''B'', ex_wf_node ''C'']
                 [ex_edge ''e1'' ''A'' ''B'' None, ex_edge ''e2'' ''B'' ''C'' (Some False)]"

definition wf_without_tail :: WorkflowDefinition where
  "wf_without_tail = ex_workflow [ex_wf_node ''A'', ex_wf_node ''B'', ex_wf_node ''C'']
                 [ex_edge ''e1'' ''A'' ''B'' None]"

section \<open>Properties of the recorder\<close>

subsection \<open>Auxiliary facts\<close>

lemma findIndex_Some:
  "findIndex P xs = Some i \<Longrightarrow> i < length xs \<and> P (xs ! i) \<and> (\<forall>j<i. \<not> P (xs ! j))"
proof (induction xs arbitrary: i)
  case Nil then show ?case by simp
next
  case (Cons x xs)
  show ?case
  proof (cases "P x")
    case True with Cons.prems show ?thesis by simp
  next
    case False
    with Cons.prems obtain k where k: "findIndex P xs = Some k" "i = Suc k" by auto
    from Cons.IH[OF k(1)] False k(2) show ?thesis by (auto simp: less_Suc_eq_0_disj)
  qed
qed

lemma findIndex_None: "findIndex P xs = None \<longleftrightarrow> (\<forall>x\<in>set xs. \<not> P x)"
  by (induction xs) auto

lemma filter_three_le:
  "length (filter (\<lambda>n. node_status n = NODE_COMPLETED) ns)
   + length (filter (\<lambda>n. node_status n = NODE_FAILED) ns)
   + length (filter (\<lambda>n. node_status n = NODE_SKIPPED) ns) \<le> length ns"
  by (induction ns) auto

lemma counts_le_length:
  "count_status NODE_COMPLETED ns + count_status NODE_FAILED ns + count_status NODE_SKIPPED ns
     \<le> int (length ns)"
  using filter_three_le[of ns] by (simp add: count_status_def)

lemma upsert_ids:
  "set (map nodeId (upsert_node nr ns)) = insert (nodeId nr) (set (map nodeId ns))"
proof (cases "findIndex (\<lambda>n. nodeId n = nodeId nr) ns")
  case None then show ?thesis by (simp add: upsert_node_def)
next
  case (Some i)
  from findIndex_Some[OF Some] have i: "i < length ns" "nodeId (ns ! i) = nodeId nr" by auto
  have "map nodeId (ns[i := nr]) = map nodeId ns"
    using i by (simp add: map_update list_update_same_conv)
  moreover have "nodeId nr \<in> set (map nodeId ns)" using i by (metis length_map nth_map nth_mem)
  ultimately show ?thesis using Some by (auto simp: upsert_node_def)
qed

lemma upsert_distinct:
  "distinct (map nodeId ns) \<Longrightarrow> distinct (map nodeId (upsert_node nr ns))"
proof (cases "findIndex (\<lambda>n. nodeId n = nodeId nr) ns")
  case None
  assume d: "distinct (map nodeId ns)"
  have "\<forall>x\<in>set ns. nodeId x \<noteq> nodeId nr" using None by (simp add: findIndex_None)
  then show ?thesis using d None by (auto simp: upsert_node_def)
next
  case (Some i)
  assume d: "distinct (map nodeId ns)"
  from findIndex_Some[OF Some] have i: "i < length ns" "nodeId (ns ! i) = nodeId nr" by auto
  have "map nodeId (ns[i := nr]) = map nodeId ns"
    using i by (simp add: map_update list_update_same_conv)
  then show ?thesis using d Some by (simp add: upsert_node_def)
qed

lemma addNodeExecution_result:
  assumes "s executionId = Some r" and "exec_id r = executionId"
  shows "addNodeExecution now executionId nr s
           = Inr (s(executionId \<mapsto> (record_node nr r)\<lparr>updatedAt := now\<rparr>))"
  using assms by (simp add: addNodeExecution_def get_def save_def record_node_def Let_def)

lemma updateStatus_result:
  assumes "s executionId = Some r" and "exec_id r = executionId"
  shows "updateStatus now executionId st err s
           = Inr (s(executionId \<mapsto> (set_status now st err r)\<lparr>updatedAt := now\<rparr>))"
  using assms
  by (simp add: updateStatus_def get_def save_def set_status_def Let_def split: option.split)

lemma filter_update_single:
  assumes "length (filter P xs) \<le> 1" and "i < length xs" and "P (xs ! i)" and "P y"
  shows "filter P (xs[i := y]) = [y]"
proof -
  have xs: "xs = take i xs @ xs ! i # drop (Suc i) xs"
    using assms(2) by (simp add: id_take_nth_drop)
  have "length (filter P (take i xs)) + 1 + length (filter P (drop (Suc i) xs)) \<le> 1"
    using assms(1,3) by (subst (asm) xs) simp
  then have e: "filter P (take i xs) = []" "filter P (drop (Suc i) xs) = []" by simp_all
  have "xs[i := y] = take i xs @ y # drop (Suc i) xs"
    using assms(2) by (simp add: upd_conv_take_nth_drop)
  then show ?thesis using e assms(4) by simp
qed

lemma upsert_single:
  assumes "length (filter (\<lambda>n. nodeId n = nodeId nr) ns) \<le> 1"
  shows "filter (\<lambda>n. nodeId n = nodeId nr) (upsert_node nr ns) = [nr]"
proof (cases "findIndex (\<lambda>n. nodeId n = nodeId nr) ns")
  case None
  have "\<forall>x\<in>set ns. nodeId x \<noteq> nodeId nr" using None by (simp add: findIndex_None)
  then have "filter (\<lambda>n. nodeId n = nodeId nr) ns = []" by (simp add: filter_empty_conv)
  then show ?thesis using None by (simp add: upsert_node_def)
next
  case (Some i)
  from findIndex_Some[OF Some] have i: "i < length ns" "nodeId (ns ! i) = nodeId nr" by auto
  have "filter (\<lambda>n. nodeId n = nodeId nr) (ns[i := nr]) = [nr]"
    by (rule filter_update_single[OF assms i(1)]) (simp_all add: i(2))
  then show ?thesis using Some by (simp add: upsert_node_def)
qed

lemma ex_store1_lookup: "ex_store1 ''exec_wf_100_k3'' = Some ex_record1"
  by (simp add: ex_store1_def ex_record1_def createExecution_def ex_workflow_def show_int_def
        show_nat.simps Let_def save_def)

lemma ex_record1_id: "exec_id ex_record1 = ''exec_wf_100_k3''"
  by (simp add: ex_record1_def createExecution_def ex_workflow_def show_int_def
        show_nat.simps Let_def)

lemma ex_record1_fields:
  "startTime ex_record1 = 100" "endTime ex_record1 = None" "duration ex_record1 = None"
  "nodes ex_record1 = []" "totalNodes (stats ex_record1) = 1"
  by (simp_all add: ex_record1_def createExecution_def ex_workflow_def Let_def)

subsection \<open>End time and duration\<close>

text \<open>
  C6 (as amended). For every stored execution record, a call of \<open>updateStatus\<close> whose new
  status is terminal (COMPLETED, FAILED or CANCELLED) sets the end time to the current time
  and the duration to end time minus start time, whatever the two fields held before; a call
  whose new status is not terminal leaves both fields as they were.
\<close>

theorem updateStatus_end_time:
  assumes "s executionId = Some r" and "exec_id r = executionId"
  shows "\<exists>s' r'. updateStatus now executionId st err s = Inr s' \<and> s' executionId = Some r'
           \<and> status r' = st
           \<and> (is_terminal st \<longrightarrow> endTime r' = Some now \<and> duration r' = Some (now - startTime r))
           \<and> (\<not> is_terminal st \<longrightarrow> endTime r' = endTime r \<and> duration r' = duration r)"
proof -
  define r' where "r' = (set_status now st err r)\<lparr>updatedAt := now\<rparr>"
  have res: "updateStatus now executionId st err s = Inr (s(executionId \<mapsto> r'))"
    unfolding r'_def using assms by (rule updateStatus_result)
  have st: "status r' = st"
    by (simp add: r'_def set_status_def Let_def split: option.split)
  have t: "endTime r' = Some now \<and> duration r' = Some (now - startTime r)" if "is_terminal st"
    using that by (auto simp: r'_def set_status_def Let_def is_terminal_def split: option.split)
  have n: "endTime r' = endTime r \<and> duration r' = duration r" if "\<not> is_terminal st"
    using that by (simp add: r'_def set_status_def Let_def split: option.split)
  show ?thesis
    using res st t n by (intro exI[of _ "s(executionId \<mapsto> r')"] exI[of _ r']) simp
qed

theorem updateStatus_end_time_witness:
  "ex_store1 ''exec_wf_100_k3'' = Some ex_record1 \<and> exec_id ex_record1 = ''exec_wf_100_k3''
   \<and> map_option endTime
         (record_in (updateStatus 200 ''exec_wf_100_k3'' COMPLETED None ex_store1) ''exec_wf_100_k3'')
       = Some (Some 200)
   \<and> map_option duration
         (record_in (updateStatus 200 ''exec_wf_100_k3'' COMPLETED None ex_store1) ''exec_wf_100_k3'')
       = Some (Some 100)
   \<and> map_option endTime
         (record_in (updateStatus 200 ''exec_wf_100_k3'' RUNNING None ex_store1) ''exec_wf_100_k3'')
       = Some None"
proof -
  from updateStatus_end_time[where s = ex_store1 and executionId = "''exec_wf_100_k3''"
         and r = ex_record1 and now = 200 and st = COMPLETED and err = None,
         OF ex_store1_lookup ex_record1_id]
  have a: "map_option endTime
         (record_in (updateStatus 200 ''exec_wf_100_k3'' COMPLETED None ex_store1) ''exec_wf_100_k3'')
       = Some (Some 200)"
    and b: "map_option duration
         (record_in (updateStatus 200 ''exec_wf_100_k3'' COMPLETED None ex_store1) ''exec_wf_100_k3'')
       = Some (Some 100)"
    by (auto simp: record_in_def is_terminal_def ex_record1_fields)
  from updateStatus_end_time[where s = ex_store1 and executionId = "''exec_wf_100_k3''"
         and r = ex_record1 and now = 200 and st = RUNNING and err = None,
         OF ex_store1_lookup ex_record1_id]
  have c: "map_option endTime
         (record_in (updateStatus 200 ''exec_wf_100_k3'' RUNNING None ex_store1) ''exec_wf_100_k3'')
       = Some None"
    by (auto simp: record_in_def is_terminal_def ex_record1_fields)
  show ?thesis using a b c ex_store1_lookup ex_record1_id by simp
qed

text \<open>
  C6 as stated fails: the record created at time 100 is completed at time 200 and then marked
  FAILED at time 300; the second call moves the end time from 200 to 300 and the duration
  from 100 to 200.
\<close>

theorem end_time_set_once_counterexample:
  "map_option endTime
      (record_in (updateStatus 200 ''exec_wf_100_k3'' COMPLETED None ex_store1) ''exec_wf_100_k3'')
     = Some (Some 200)
   \<and> map_option endTime
        (record_in (and_then (updateStatus 200 ''exec_wf_100_k3'' COMPLETED None ex_store1)
                      (updateStatus 300 ''exec_wf_100_k3'' FAILED None)) ''exec_wf_100_k3'')
     = Some (Some 300)
   \<and> map_option duration
        (record_in (updateStatus 200 ''exec_wf_100_k3'' COMPLETED None ex_store1) ''exec_wf_100_k3'')
     = Some (Some 100)
   \<and> map_option duration
        (record_in (and_then (updateStatus 200 ''exec_wf_100_k3'' COMPLETED None ex_store1)
                      (updateStatus 300 ''exec_wf_100_k3'' FAILED None)) ''exec_wf_100_k3'')
     = Some (Some 200)"
  by (simp add: ex_store1_def createExecution_def ex_workflow_def show_int_def show_nat.simps Let_def
        updateStatus_def get_def save_def set_status_def is_terminal_def record_in_def and_then_def
        ex_wf_node_def)

subsection \<open>The node-count invariant\<close>

text \<open>
  C7 (as amended). For every stored execution record and every \<open>addNodeExecution\<close> call, the
  call leaves \<open>totalNodes\<close> unchanged and afterwards completed + failed + skipped is at most
  the number of node records in the list. The sum is at most \<open>totalNodes\<close> when the node ids
  on record are pairwise distinct, \<open>totalNodes\<close> is the node count of the graph, and every
  recorded node id, the new one included, is the id of a node of that graph.
\<close>

theorem node_counts_bounded:
  assumes "s executionId = Some r" and "exec_id r = executionId"
  shows "\<exists>s' r'. addNodeExecution now executionId nr s = Inr s' \<and> s' executionId = Some r'
           \<and> totalNodes (stats r') = totalNodes (stats r)
           \<and> completedNodes (stats r') + failedNodes (stats r') + skippedNodes (stats r')
                \<le> int (length (nodes r'))
           \<and> (distinct (map nodeId (nodes r))
                \<and> insert (nodeId nr) (set (map nodeId (nodes r))) \<subseteq> set (map node_id (wf_nodes w))
                \<and> totalNodes (stats r) = int (length (wf_nodes w))
              \<longrightarrow> completedNodes (stats r') + failedNodes (stats r') + skippedNodes (stats r')
                    \<le> totalNodes (stats r'))"
proof -
  define r' where "r' = (record_node nr r)\<lparr>updatedAt := now\<rparr>"
  have res: "addNodeExecution now executionId nr s = Inr (s(executionId \<mapsto> r'))"
    unfolding r'_def using assms by (rule addNodeExecution_result)
  have ns: "nodes r' = upsert_node nr (nodes r)"
    by (simp add: r'_def record_node_def Let_def)
  have tot: "totalNodes (stats r') = totalNodes (stats r)"
    by (simp add: r'_def record_node_def Let_def)
  have cnt: "completedNodes (stats r') = count_status NODE_COMPLETED (nodes r')"
       "failedNodes (stats r') = count_status NODE_FAILED (nodes r')"
       "skippedNodes (stats r') = count_status NODE_SKIPPED (nodes r')"
    by (simp_all add: r'_def record_node_def Let_def)
  have le: "completedNodes (stats r') + failedNodes (stats r') + skippedNodes (stats r')
              \<le> int (length (nodes r'))"
    unfolding cnt by (rule counts_le_length)
  have bound: "completedNodes (stats r') + failedNodes (stats r') + skippedNodes (stats r')
                    \<le> totalNodes (stats r')"
    if d: "distinct (map nodeId (nodes r))"
      and sub: "insert (nodeId nr) (set (map nodeId (nodes r))) \<subseteq> set (map node_id (wf_nodes w))"
      and t: "totalNodes (stats r) = int (length (wf_nodes w))"
  proof -
    have "length (nodes r') = length (map nodeId (nodes r'))" by simp
    also have "\<dots> = card (set (map nodeId (nodes r')))"
      using distinct_card[OF upsert_distinct[OF d, of nr]] ns by simp
    also have "\<dots> \<le> card (set (map node_id (wf_nodes w)))"
      using sub upsert_ids[of nr "nodes r"] ns by (intro card_mono) auto
    also have "\<dots> \<le> length (wf_nodes w)"
      using card_length[of "map node_id (wf_nodes w)"] by simp
    finally have "int (length (nodes r')) \<le> totalNodes (stats r')" using t tot by simp
    with le show ?thesis by linarith
  qed
  show ?thesis
    using res tot le bound by (intro exI[of _ "s(executionId \<mapsto> r')"] exI[of _ r']) simp
qed

theorem node_counts_bounded_witness:
  "ex_store1 ''exec_wf_100_k3'' = Some ex_record1 \<and> exec_id ex_record1 = ''exec_wf_100_k3''
   \<and> distinct (map nodeId (nodes ex_record1))
   \<and> insert (nodeId (ex_node ''A'' NODE_COMPLETED)) (set (map nodeId (nodes ex_record1)))
        \<subseteq> set (map node_id (wf_nodes (ex_workflow [ex_wf_node ''A''] [])))
   \<and> totalNodes (stats ex_record1) = int (length (wf_nodes (ex_workflow [ex_wf_node ''A''] [])))
   \<and> (\<exists>r'. record_in (addNodeExecution 101 ''exec_wf_100_k3'' (ex_node ''A'' NODE_COMPLETED) ex_store1)
               ''exec_wf_100_k3'' = Some r'
           \<and> completedNodes (stats r') + failedNodes (stats r') + skippedNodes (stats r')
               \<le> totalNodes (stats r'))"
proof -
  have h: "distinct (map nodeId (nodes ex_record1))"
    "insert (nodeId (ex_node ''A'' NODE_COMPLETED)) (set (map nodeId (nodes ex_record1)))
        \<subseteq> set (map node_id (wf_nodes (ex_workflow [ex_wf_node ''A''] [])))"
    "totalNodes (stats ex_record1) = int (length (wf_nodes (ex_workflow [ex_wf_node ''A''] [])))"
    by (simp_all add: ex_record1_fields ex_node_def ex_workflow_def ex_wf_node_def)
  from node_counts_bounded[where s = ex_store1 and executionId = "''exec_wf_100_k3''"
         and r = ex_record1 and now = 101 and nr = "ex_node ''A'' NODE_COMPLETED"
         and w = "ex_workflow [ex_wf_node ''A''] []", OF ex_store1_lookup ex_record1_id] h
  have "\<exists>r'. record_in (addNodeExecution 101 ''exec_wf_100_k3'' (ex_node ''A'' NODE_COMPLETED) ex_store1)
               ''exec_wf_100_k3'' = Some r'
           \<and> completedNodes (stats r') + failedNodes (stats r') + skippedNodes (stats r')
               \<le> totalNodes (stats r')"
    by (auto simp: record_in_def)
  then show ?thesis using h ex_store1_lookup ex_record1_id by blast
qed

text \<open>
  C7 as stated fails: the execution of the one-node workflow accepts records for two node
  ids, A and B, both COMPLETED; afterwards \<open>completedNodes\<close> is 2 and \<open>totalNodes\<close> is 1.
\<close>

theorem node_count_invariant_counterexample:
  "map_option (completedNodes \<circ> stats)
      (record_in (and_then (addNodeExecution 101 ''exec_wf_100_k3'' (ex_node ''A'' NODE_COMPLETED) ex_store1)
                    (addNodeExecution 102 ''exec_wf_100_k3'' (ex_node ''B'' NODE_COMPLETED)))
         ''exec_wf_100_k3'') = Some 2
   \<and> map_option (totalNodes \<circ> stats)
      (record_in (and_then (addNodeExecution 101 ''exec_wf_100_k3'' (ex_node ''A'' NODE_COMPLETED) ex_store1)
                    (addNodeExecution 102 ''exec_wf_100_k3'' (ex_node ''B'' NODE_COMPLETED)))
         ''exec_wf_100_k3'') = Some 1"
  by (simp add: ex_store1_def createExecution_def ex_workflow_def show_int_def show_nat.simps Let_def
        addNodeExecution_def get_def save_def record_node_def upsert_node_def count_status_def
        record_in_def and_then_def ex_wf_node_def ex_node_def)

subsection \<open>Upsert by node id\<close>

lemma filter_update_others:
  assumes "i < length xs" and "\<not> P (xs ! i)" and "\<not> P y"
  shows "filter P (xs[i := y]) = filter P xs"
proof -
  have xs: "xs = take i xs @ xs ! i # drop (Suc i) xs"
    using assms(1) by (simp add: id_take_nth_drop)
  have "filter P xs = filter P (take i xs) @ filter P (drop (Suc i) xs)"
    using assms(2) by (subst xs) simp
  moreover have "xs[i := y] = take i xs @ y # drop (Suc i) xs"
    using assms(1) by (simp add: upd_conv_take_nth_drop)
  ultimately show ?thesis using assms(3) by simp
qed

lemma upsert_others:
  "filter (\<lambda>n. nodeId n \<noteq> nodeId nr) (upsert_node nr ns) = filter (\<lambda>n. nodeId n \<noteq> nodeId nr) ns"
proof (cases "findIndex (\<lambda>n. nodeId n = nodeId nr) ns")
  case None
  then show ?thesis by (simp add: upsert_node_def)
next
  case (Some i)
  from findIndex_Some[OF Some] have i: "i < length ns" "nodeId (ns ! i) = nodeId nr" by auto
  have "filter (\<lambda>n. nodeId n \<noteq> nodeId nr) (ns[i := nr]) = filter (\<lambda>n. nodeId n \<noteq> nodeId nr) ns"
    by (rule filter_update_others[OF i(1)]) (simp_all add: i(2))
  then show ?thesis using Some by (simp add: upsert_node_def)
qed

text \<open>
  C8. For a stored execution record that holds at most one record for a node id (the data
  model's one entry per node id, which \<open>createExecution\<close> establishes and \<open>addNodeExecution\<close>
  preserves, see \<open>upsert_distinct\<close>), two \<open>addNodeExecution\<close> calls for that node id leave
  exactly one record for it, equal to the argument of the second call, and leave the
  records of the other node ids as they were, in their order. Afterwards the completed,
  failed and skipped counters are the numbers of records of the whole node list, as it is
  after the upsert, whose status is COMPLETED, FAILED and SKIPPED.
\<close>

theorem upsert_twice_single_record:
  assumes "s executionId = Some r" and "exec_id r = executionId"
    and "nodeId n1 = k" and "nodeId n2 = k"
    and "length (filter (\<lambda>n. nodeId n = k) (nodes r)) \<le> 1"
  shows "\<exists>s1 s2 r2. addNodeExecution t1 executionId n1 s = Inr s1
           \<and> addNodeExecution t2 executionId n2 s1 = Inr s2
           \<and> s2 executionId = Some r2
           \<and> filter (\<lambda>n. nodeId n = k) (nodes r2) = [n2]
           \<and> filter (\<lambda>n. nodeId n \<noteq> k) (nodes r2) = filter (\<lambda>n. nodeId n \<noteq> k) (nodes r)
           \<and> completedNodes (stats r2)
               = int (length (filter (\<lambda>n. node_status n = NODE_COMPLETED) (nodes r2)))
           \<and> failedNodes (stats r2)
               = int (length (filter (\<lambda>n. node_status n = NODE_FAILED) (nodes r2)))
           \<and> skippedNodes (stats r2)
               = int (length (filter (\<lambda>n. node_status n = NODE_SKIPPED) (nodes r2)))"
proof -
  define r1 where "r1 = (record_node n1 r)\<lparr>updatedAt := t1\<rparr>"
  define r2 where "r2 = (record_node n2 r1)\<lparr>updatedAt := t2\<rparr>"
  define s1 where "s1 = s(executionId \<mapsto> r1)"
  define s2 where "s2 = s1(executionId \<mapsto> r2)"
  have a1: "addNodeExecution t1 executionId n1 s = Inr s1"
    unfolding s1_def r1_def using assms(1,2) by (rule addNodeExecution_result)
  have id1: "exec_id r1 = executionId"
    using assms(2) by (simp add: r1_def record_node_def Let_def)
  have "s1 executionId = Some r1" by (simp add: s1_def)
  then have a2: "addNodeExecution t2 executionId n2 s1 = Inr s2"
    unfolding s2_def r2_def using id1 by (rule addNodeExecution_result)
  have ns1: "nodes r1 = upsert_node n1 (nodes r)" by (simp add: r1_def record_node_def Let_def)
  have ns2: "nodes r2 = upsert_node n2 (nodes r1)" by (simp add: r2_def record_node_def Let_def)
  have f1: "filter (\<lambda>n. nodeId n = k) (nodes r1) = [n1]"
    using upsert_single[of n1 "nodes r"] assms(3,5) ns1 by simp
  have f2: "filter (\<lambda>n. nodeId n = k) (nodes r2) = [n2]"
    using upsert_single[of n2 "nodes r1"] assms(4) f1 ns2 by simp
  have o1: "filter (\<lambda>n. nodeId n \<noteq> k) (nodes r1) = filter (\<lambda>n. nodeId n \<noteq> k) (nodes r)"
    using upsert_others[of n1 "nodes r"] assms(3) ns1 by simp
  have o2: "filter (\<lambda>n. nodeId n \<noteq> k) (nodes r2) = filter (\<lambda>n. nodeId n \<noteq> k) (nodes r)"
    using upsert_others[of n2 "nodes r1"] assms(4) ns2 o1 by simp
  have cnt: "completedNodes (stats r2)
               = int (length (filter (\<lambda>n. node_status n = NODE_COMPLETED) (nodes r2)))"
       "failedNodes (stats r2)
               = int (length (filter (\<lambda>n. node_status n = NODE_FAILED) (nodes r2)))"
       "skippedNodes (stats r2)
               = int (length (filter (\<lambda>n. node_status n = NODE_SKIPPED) (nodes r2)))"
    by (simp_all add: r2_def record_node_def count_status_def Let_def)
  have "s2 executionId = Some r2" by (simp add: s2_def)
  then show ?thesis using a1 a2 f2 o2 cnt by blast
qed

text \<open>The execution holds records for B (COMPLETED), A (PENDING) and C (FAILED); A is recorded
  as RUNNING and then as COMPLETED. The list keeps its three places, A's record is the
  second argument, and the counters are 2 completed, 1 failed, 0 skipped (after the first
  call they are 1, 1, 0).\<close>

theorem upsert_twice_single_record_witness:
  "ex_store_with [ex_node ''B'' NODE_COMPLETED, ex_node ''A'' NODE_PENDING, ex_node ''C'' NODE_FAILED] []
       ''exec_wf_100_k3''
     = Some (ex_record_with [ex_node ''B'' NODE_COMPLETED, ex_node ''A'' NODE_PENDING,
                             ex_node ''C'' NODE_FAILED] [])
   \<and> exec_id (ex_record_with [ex_node ''B'' NODE_COMPLETED, ex_node ''A'' NODE_PENDING,
                               ex_node ''C'' NODE_FAILED] []) = ''exec_wf_100_k3''
   \<and> nodeId (ex_node ''A'' NODE_RUNNING) = ''A'' \<and> nodeId (ex_node ''A'' NODE_COMPLETED) = ''A''
   \<and> length (filter (\<lambda>n. nodeId n = ''A'')
        (nodes (ex_record_with [ex_node ''B'' NODE_COMPLETED, ex_node ''A'' NODE_PENDING,
                                ex_node ''C'' NODE_FAILED] []))) \<le> 1
   \<and> (\<exists>r2. record_in
             (and_then (addNodeExecution 101 ''exec_wf_100_k3'' (ex_node ''A'' NODE_RUNNING)
                          (ex_store_with [ex_node ''B'' NODE_COMPLETED, ex_node ''A'' NODE_PENDING,
                                          ex_node ''C'' NODE_FAILED] []))
                (addNodeExecution 102 ''exec_wf_100_k3'' (ex_node ''A'' NODE_COMPLETED)))
             ''exec_wf_100_k3'' = Some r2
          \<and> filter (\<lambda>n. nodeId n = ''A'') (nodes r2) = [ex_node ''A'' NODE_COMPLETED]
          \<and> filter (\<lambda>n. nodeId n \<noteq> ''A'') (nodes r2)
              = [ex_node ''B'' NODE_COMPLETED, ex_node ''C'' NODE_FAILED]
          \<and> nodes r2 = [ex_node ''B'' NODE_COMPLETED, ex_node ''A'' NODE_COMPLETED,
                        ex_node ''C'' NODE_FAILED]
          \<and> completedNodes (stats r2) = 2 \<and> failedNodes (stats r2) = 1
          \<and> skippedNodes (stats r2) = 0)
   \<and> map_option (completedNodes \<circ> stats)
        (record_in (addNodeExecution 101 ''exec_wf_100_k3'' (ex_node ''A'' NODE_RUNNING)
                      (ex_store_with [ex_node ''B'' NODE_COMPLETED, ex_node ''A'' NODE_PENDING,
                                      ex_node ''C'' NODE_FAILED] []))
           ''exec_wf_100_k3'') = Some 1"
proof -
  let ?ns = "[ex_node ''B'' NODE_COMPLETED, ex_node ''A'' NODE_PENDING, ex_node ''C'' NODE_FAILED]"
  let ?s = "ex_store_with ?ns []"
  let ?r = "ex_record_with ?ns []"
  let ?run = "record_in
             (and_then (addNodeExecution 101 ''exec_wf_100_k3'' (ex_node ''A'' NODE_RUNNING) ?s)
                (addNodeExecution 102 ''exec_wf_100_k3'' (ex_node ''A'' NODE_COMPLETED)))
             ''exec_wf_100_k3''"
  have l: "?s ''exec_wf_100_k3'' = Some ?r" by (simp add: ex_store_with_def)
  have i: "exec_id ?r = ''exec_wf_100_k3''" by (simp add: ex_record_with_def ex_record1_id)
  have nr: "nodes ?r = ?ns" by (simp add: ex_record_with_def)
  have h: "nodeId (ex_node ''A'' NODE_RUNNING) = ''A''" "nodeId (ex_node ''A'' NODE_COMPLETED) = ''A''"
    "length (filter (\<lambda>n. nodeId n = ''A'') (nodes ?r)) \<le> 1"
    unfolding nr by (simp_all add: ex_node_def)
  from upsert_twice_single_record[where s = ?s and executionId = "''exec_wf_100_k3''"
         and r = ?r and k = "''A''" and ?n1.0 = "ex_node ''A'' NODE_RUNNING"
         and ?n2.0 = "ex_node ''A'' NODE_COMPLETED" and ?t1.0 = 101 and ?t2.0 = 102,
         OF l i h]
  obtain r2 where r2: "?run = Some r2"
      "filter (\<lambda>n. nodeId n = ''A'') (nodes r2) = [ex_node ''A'' NODE_COMPLETED]"
      "filter (\<lambda>n. nodeId n \<noteq> ''A'') (nodes r2) = filter (\<lambda>n. nodeId n \<noteq> ''A'') (nodes ?r)"
      "completedNodes (stats r2)
         = int (length (filter (\<lambda>n. node_status n = NODE_COMPLETED) (nodes r2)))"
      "failedNodes (stats r2)
         = int (length (filter (\<lambda>n. node_status n = NODE_FAILED) (nodes r2)))"
      "skippedNodes (stats r2)
         = int (length (filter (\<lambda>n. node_status n = NODE_SKIPPED) (nodes r2)))"
    by (auto simp: record_in_def and_then_def)
  have n: "map_option nodes ?run
             = Some [ex_node ''B'' NODE_COMPLETED, ex_node ''A'' NODE_COMPLETED, ex_node ''C'' NODE_FAILED]"
    by (simp add: ex_store_with_def ex_record_with_def ex_record1_id
        addNodeExecution_def get_def save_def record_node_def upsert_node_def
        record_in_def and_then_def ex_node_def Let_def)
  then have n2: "nodes r2 = [ex_node ''B'' NODE_COMPLETED, ex_node ''A'' NODE_COMPLETED,
                             ex_node ''C'' NODE_FAILED]"
    using r2(1) by simp
  have o: "filter (\<lambda>n. nodeId n \<noteq> ''A'') (nodes r2)
              = [ex_node ''B'' NODE_COMPLETED, ex_node ''C'' NODE_FAILED]"
    unfolding r2(3) nr by (simp add: ex_node_def)
  have c: "completedNodes (stats r2) = 2" "failedNodes (stats r2) = 1" "skippedNodes (stats r2) = 0"
    unfolding r2(4,5,6) n2 by (simp_all add: ex_node_def)
  have m: "map_option (completedNodes \<circ> stats)
        (record_in (addNodeExecution 101 ''exec_wf_100_k3'' (ex_node ''A'' NODE_RUNNING) ?s)
           ''exec_wf_100_k3'') = Some 1"
    by (simp add: ex_store_with_def ex_record_with_def ex_record1_id
        addNodeExecution_def get_def save_def record_node_def upsert_node_def count_status_def
        record_in_def and_then_def ex_node_def Let_def)
  show ?thesis using l i h r2(1,2) o n2 c m by blast
qed
section \<open>Properties of the retry manager\<close>





section \<open>Properties of the monitor\<close>

lemma ex_record10_id: "exec_id ex_record10 = ''exec_wf_100_k3''"
  by (simp add: ex_record10_def createExecution_def ex_workflow_def show_int_def
        show_nat.simps Let_def)

lemma ex_record10_total: "totalNodes (stats ex_record10) = 10"
  by (simp add: ex_record10_def createExecution_def ex_workflow_def Let_def)

lemma ex_monitor10_entry:
  "ex_monitor10 ''exec_wf_100_k3'' =
     Some \<lparr>mon_record = ex_record10, mon_startTime = 1000, lastUpdate = 1000,
           nodeStatuses = [(''n1'', NODE_COMPLETED), (''n2'', NODE_COMPLETED),
                           (''n3'', NODE_COMPLETED), (''n4'', NODE_COMPLETED),
                           (''n5'', NODE_COMPLETED), (''n6'', NODE_COMPLETED),
                           (''n7'', NODE_FAILED), (''n8'', NODE_RUNNING)]\<rparr>"
  by (simp add: ex_monitor10_def startMonitoring_def updateNodeStatus_def ex_record10_id Let_def)

text \<open>
  C9 (as amended). For every monitored execution, \<open>getProgress\<close> returns
  \<open>pendingNodes = totalNodes - completedNodes - failedNodes - runningNodes\<close> and, for a
  positive \<open>totalNodes\<close>, \<open>progress = completedNodes / totalNodes\<close> (0 otherwise), the three
  counts being taken over the node statuses seen so far. \<open>estimatedTimeRemaining\<close> is
  undefined while no node has completed and also once progress has reached 1; when at least
  one node has completed and progress is below 1 it is
  (elapsed time / completed count) times (totalNodes - completedNodes).
  With 10 nodes, 6 completed, 1 failed and 1 running: progress 0.6 and 2 pending.
\<close>

theorem progress_values:
  assumes "m executionId = Some ex"
  shows "\<exists>p. getProgress now m executionId = Some p
           \<and> p_totalNodes p = totalNodes (stats (mon_record ex))
           \<and> p_completedNodes p = count_of NODE_COMPLETED (map snd (nodeStatuses ex))
           \<and> p_failedNodes p = count_of NODE_FAILED (map snd (nodeStatuses ex))
           \<and> runningNodes p = count_of NODE_RUNNING (map snd (nodeStatuses ex))
           \<and> pendingNodes p = p_totalNodes p - p_completedNodes p - p_failedNodes p - runningNodes p
           \<and> (0 < p_totalNodes p \<longrightarrow>
                progress p = real_of_int (p_completedNodes p) / real_of_int (p_totalNodes p))
           \<and> (p_totalNodes p \<le> 0 \<longrightarrow> progress p = 0)
           \<and> (p_completedNodes p = 0 \<longrightarrow> estimatedTimeRemaining p = None)
           \<and> (1 \<le> progress p \<longrightarrow> estimatedTimeRemaining p = None)
           \<and> (0 < p_completedNodes p \<and> progress p < 1 \<longrightarrow>
                estimatedTimeRemaining p =
                  Some (real_of_int (now - mon_startTime ex) / real_of_int (p_completedNodes p)
                        * real_of_int (p_totalNodes p - p_completedNodes p)))"
  using assms by (simp add: getProgress_def Let_def)

theorem progress_values_witness:
  "ex_monitor10 ''exec_wf_100_k3'' =
     Some \<lparr>mon_record = ex_record10, mon_startTime = 1000, lastUpdate = 1000,
           nodeStatuses = [(''n1'', NODE_COMPLETED), (''n2'', NODE_COMPLETED),
                           (''n3'', NODE_COMPLETED), (''n4'', NODE_COMPLETED),
                           (''n5'', NODE_COMPLETED), (''n6'', NODE_COMPLETED),
                           (''n7'', NODE_FAILED), (''n8'', NODE_RUNNING)]\<rparr>
   \<and> map_option progress (getProgress 5000 ex_monitor10 ''exec_wf_100_k3'') = Some (6 / 10)
   \<and> map_option pendingNodes (getProgress 5000 ex_monitor10 ''exec_wf_100_k3'') = Some 2
   \<and> map_option p_completedNodes (getProgress 5000 ex_monitor10 ''exec_wf_100_k3'') = Some 6
   \<and> map_option p_failedNodes (getProgress 5000 ex_monitor10 ''exec_wf_100_k3'') = Some 1
   \<and> map_option runningNodes (getProgress 5000 ex_monitor10 ''exec_wf_100_k3'') = Some 1
   \<and> map_option estimatedTimeRemaining (getProgress 5000 ex_monitor10 ''exec_wf_100_k3'')
       = Some (Some (4000 / 6 * 4))"
  using progress_values[where m = ex_monitor10 and executionId = "''exec_wf_100_k3''"
          and now = 5000, OF ex_monitor10_entry]
  by (auto simp: count_of_def ex_record10_total ex_monitor10_entry)

text \<open>
  C9 as stated fails once every node has completed: in the one-node execution with its node
  completed the claim gives an estimate of (elapsed / 1) * 0 = 0, and \<open>getProgress\<close> leaves
  the estimate undefined.
\<close>

theorem eta_after_first_completion_counterexample:
  "map_option p_completedNodes (getProgress 5000 ex_monitor1 ''exec_wf_100_k3'') = Some 1
   \<and> map_option p_totalNodes (getProgress 5000 ex_monitor1 ''exec_wf_100_k3'') = Some 1
   \<and> map_option estimatedTimeRemaining (getProgress 5000 ex_monitor1 ''exec_wf_100_k3'') = Some None"
  by (simp add: ex_monitor1_def startMonitoring_def updateNodeStatus_def ex_record1_id Let_def
        getProgress_def count_of_def ex_record1_fields)

section \<open>Properties of rollback and resume\<close>

lemma findIndex_first:
  "i < length xs \<Longrightarrow> P (xs ! i) \<Longrightarrow> (\<forall>j<i. \<not> P (xs ! j)) \<Longrightarrow> findIndex P xs = Some i"
proof (induction xs arbitrary: i)
  case Nil then show ?case by simp
next
  case (Cons x xs)
  show ?case
  proof (cases i)
    case 0 with Cons.prems show ?thesis by simp
  next
    case (Suc k)
    have nx: "\<not> P x" using Cons.prems(3) Suc by auto
    have "findIndex P xs = Some k"
    proof (rule Cons.IH)
      show "k < length xs" using Cons.prems(1) Suc by simp
      show "P (xs ! k)" using Cons.prems(2) Suc by simp
      show "\<forall>j<k. \<not> P (xs ! j)" using Cons.prems(3) Suc by auto
    qed
    then show ?thesis using nx Suc by simp
  qed
qed

lemma find_in_set: "x \<in> set xs \<Longrightarrow> P x \<Longrightarrow> find P xs \<noteq> None"
  by (induction xs) auto

lemma find_append_if:
  "find P (xs @ ys) = (case find P xs of None \<Rightarrow> find P ys | Some x \<Rightarrow> Some x)"
  by (induction xs) auto

lemma find_None_iff': "find P xs = None \<longleftrightarrow> (\<forall>x\<in>set xs. \<not> P x)"
  by (induction xs) auto

lemma lastCompleted_None:
  "(\<forall>n\<in>set ns. node_status n \<noteq> NODE_COMPLETED) \<Longrightarrow> lastCompletedNode ns = None"
  by (simp add: lastCompletedNode_def find_None_iff')

lemma lastCompleted_Some:
  assumes "i < length ns" and "node_status (ns ! i) = NODE_COMPLETED"
    and "\<forall>j. i < j \<and> j < length ns \<longrightarrow> node_status (ns ! j) \<noteq> NODE_COMPLETED"
  shows "lastCompletedNode ns = Some (ns ! i)"
proof -
  have ns: "ns = take i ns @ ns ! i # drop (Suc i) ns"
    using assms(1) by (simp add: id_take_nth_drop)
  have "\<forall>x\<in>set (drop (Suc i) ns). node_status x \<noteq> NODE_COMPLETED"
  proof
    fix x assume "x \<in> set (drop (Suc i) ns)"
    then obtain k where k: "k < length (drop (Suc i) ns)" "x = drop (Suc i) ns ! k"
      by (auto simp: in_set_conv_nth)
    then have "x = ns ! (Suc i + k)" "Suc i + k < length ns" by auto
    then show "node_status x \<noteq> NODE_COMPLETED" using assms(3) by auto
  qed
  then have "find (\<lambda>n. node_status n = NODE_COMPLETED) (rev (drop (Suc i) ns)) = None"
    by (simp add: find_None_iff')
  moreover have "rev ns = rev (drop (Suc i) ns) @ (ns ! i # rev (take i ns))"
    by (subst ns) simp
  ultimately show ?thesis
    using assms(2) by (simp add: lastCompletedNode_def find_append_if)
qed

lemma findIndex_distinct:
  assumes "distinct (map nodeId ns)" and "i < length ns"
  shows "findIndex (\<lambda>n. nodeId n = nodeId (ns ! i)) ns = Some i"
proof (rule findIndex_first)
  show "i < length ns" by fact
  show "nodeId (ns ! i) = nodeId (ns ! i)" by simp
  show "\<forall>j<i. nodeId (ns ! j) \<noteq> nodeId (ns ! i)"
  proof (intro allI impI)
    fix j assume "j < i"
    then have "map nodeId ns ! j \<noteq> map nodeId ns ! i"
      using assms nth_eq_iff_index_eq[of "map nodeId ns" j i] by auto
    then show "nodeId (ns ! j) \<noteq> nodeId (ns ! i)" using \<open>j < i\<close> assms(2) by simp
  qed
qed

lemma ex_store_with_lookup:
  "get (ex_store_with ns cps) ''exec_wf_100_k3'' = Some (ex_record_with ns cps)"
  by (simp add: get_def ex_store_with_def)

lemma ex_record_with_fields:
  "exec_id (ex_record_with ns cps) = ''exec_wf_100_k3''"
  "nodes (ex_record_with ns cps) = ns"
  "checkpoints (ex_record_with ns cps) = Some cps"
  by (simp_all add: ex_record_with_def ex_record1_id)

subsection \<open>Rollback\<close>

text \<open>
  C3. For every stored execution record that has a checkpoint for the target node and whose
  node list contains the target node (first at position \<open>i\<close>), \<open>rollback\<close> succeeds, returns
  as \<open>affectedNodes\<close> the ids of the records after position \<open>i\<close> in their original order,
  compensates those nodes in reverse order, and stores the record with status PAUSED and the
  node list cut after the target node, whose log has the rollback note appended.
  For nodes A (completed), B (completed), C (failed) and a checkpoint at A, \<open>rollback\<close> to A
  leaves the node list [A], status PAUSED, and returns the affected nodes [B, C].
\<close>

theorem rollback_truncates:
  assumes "get s executionId = Some r" and "exec_id r = executionId"
    and "checkpoints r = Some cs" and "c \<in> set cs" and "cp_nodeId c = targetNodeId"
    and "i < length (nodes r)" and "nodeId (nodes r ! i) = targetNodeId"
    and "\<forall>j<i. nodeId (nodes r ! j) \<noteq> targetNodeId"
  shows "\<exists>res console s' r'.
           rollback now executionId targetNodeId s = (res, console, s')
           \<and> success res \<and> rolledBackTo res = targetNodeId \<and> rb_error res = None
           \<and> affectedNodes res = map nodeId (drop (Suc i) (nodes r))
           \<and> console = map (\<lambda>n. ''Rolling back node: '' @ nodeId n) (rev (drop (Suc i) (nodes r)))
           \<and> get s' executionId = Some r'
           \<and> status r' = PAUSED
           \<and> nodes r' =
               take i (nodes r)
               @ [(nodes r ! i)\<lparr>logs :=
                    Some ((case logs (nodes r ! i) of None \<Rightarrow> [] | Some l \<Rightarrow> l)
                          @ [rollback_note (length (nodes r) - Suc i)])\<rparr>]"
proof -
  have cp: "find (\<lambda>c. cp_nodeId c = targetNodeId) (case checkpoints r of None \<Rightarrow> [] | Some cs \<Rightarrow> cs) \<noteq> None"
    using assms(3,4,5) find_in_set[of c cs "\<lambda>c. cp_nodeId c = targetNodeId"] by simp
  have ix: "findIndex (\<lambda>n. nodeId n = targetNodeId) (nodes r) = Some i"
    using assms(6,7,8) by (intro findIndex_first) auto
  have tk: "take (Suc i) (nodes r) = take i (nodes r) @ [nodes r ! i]"
    using assms(6) by (simp add: take_Suc_conv_app_nth)
  have ln: "length (take i (nodes r)) = i" using assms(6) by simp
  have upd: "(take i (nodes r) @ [nodes r ! i])[i := y] = take i (nodes r) @ [y]" for y
    using ln by (metis append_Nil2 list_update_code(2) list_update_length append.assoc append_Cons)
  have nth: "(take i (nodes r) @ [nodes r ! i]) ! i = nodes r ! i"
    using ln by (metis nth_append_length)
  show ?thesis
    using assms(1,2) cp ix
    by (auto simp: rollback_def Let_def get_def save_def tk upd nth rollback_note_def
             split: option.split)
qed

theorem rollback_truncates_witness:
  "get (ex_store_with [ex_node ''A'' NODE_COMPLETED, ex_node ''B'' NODE_COMPLETED, ex_node ''C'' NODE_FAILED]
          [ex_checkpoint ''A'' (JObj [])]) ''exec_wf_100_k3''
     = Some (ex_record_with [ex_node ''A'' NODE_COMPLETED, ex_node ''B'' NODE_COMPLETED,
                             ex_node ''C'' NODE_FAILED] [ex_checkpoint ''A'' (JObj [])])
   \<and> cp_nodeId (ex_checkpoint ''A'' (JObj [])) = ''A''
   \<and> nodeId ([ex_node ''A'' NODE_COMPLETED, ex_node ''B'' NODE_COMPLETED, ex_node ''C'' NODE_FAILED] ! 0) = ''A''
   \<and> (\<exists>res console s' r'.
        rollback 200 ''exec_wf_100_k3'' ''A''
          (ex_store_with [ex_node ''A'' NODE_COMPLETED, ex_node ''B'' NODE_COMPLETED, ex_node ''C'' NODE_FAILED]
             [ex_checkpoint ''A'' (JObj [])]) = (res, console, s')
        \<and> success res \<and> affectedNodes res = [''B'', ''C'']
        \<and> console = [''Rolling back node: C'', ''Rolling back node: B'']
        \<and> get s' ''exec_wf_100_k3'' = Some r' \<and> status r' = PAUSED
        \<and> nodes r' = [(ex_node ''A'' NODE_COMPLETED)\<lparr>logs := Some [''Rolled back from 2 subsequent nodes'']\<rparr>])"
proof -
  let ?ns = "[ex_node ''A'' NODE_COMPLETED, ex_node ''B'' NODE_COMPLETED, ex_node ''C'' NODE_FAILED]"
  let ?cps = "[ex_checkpoint ''A'' (JObj [])]"
  have h: "cp_nodeId (ex_checkpoint ''A'' (JObj [])) = ''A''" "nodeId (?ns ! 0) = ''A''"
    by (simp_all add: ex_checkpoint_def ex_node_def)
  have n: "rollback_note (Suc (Suc 0)) = ''Rolled back from 2 subsequent nodes''"
    by (simp add: rollback_note_def show_nat.simps)
  from rollback_truncates[where s = "ex_store_with ?ns ?cps" and executionId = "''exec_wf_100_k3''"
         and r = "ex_record_with ?ns ?cps" and cs = ?cps and c = "ex_checkpoint ''A'' (JObj [])"
         and targetNodeId = "''A''" and i = 0 and now = 200,
         OF ex_store_with_lookup ex_record_with_fields(1) ex_record_with_fields(3)]
  have "\<exists>res console s' r'.
        rollback 200 ''exec_wf_100_k3'' ''A'' (ex_store_with ?ns ?cps) = (res, console, s')
        \<and> success res \<and> affectedNodes res = [''B'', ''C'']
        \<and> console = [''Rolling back node: C'', ''Rolling back node: B'']
        \<and> get s' ''exec_wf_100_k3'' = Some r' \<and> status r' = PAUSED
        \<and> nodes r' = [(ex_node ''A'' NODE_COMPLETED)\<lparr>logs := Some [''Rolled back from 2 subsequent nodes'']\<rparr>]"
    by (simp add: ex_record_with_fields ex_checkpoint_def ex_node_def n) blast
  then show ?thesis using h ex_store_with_lookup by blast
qed

subsection \<open>Resume\<close>

text \<open>
  C4 (as amended). For every stored execution record with pairwise distinct node ids,
  \<open>getResumeContext\<close> looks for the last node record with status COMPLETED. If there is none,
  it returns the id of the first node record (the empty string for an empty list) as
  \<open>resumeFromNode\<close>, no skipped nodes and an empty preserved state. Otherwise
  \<open>checkpointNodeId\<close> is the id of that record, \<open>skippedNodes\<close> are the ids of all COMPLETED
  records, \<open>resumeFromNode\<close> is the id of the record right after it (the empty string if it is
  the last one), and \<open>preservedState\<close> is the state of the first checkpoint for that node id if
  that state is truthy, and an empty object if there is no such checkpoint or its state is
  falsy (null, undefined, false, 0 or the empty string).
\<close>

theorem resume_context:
  assumes "get s executionId = Some r" and "distinct (map nodeId (nodes r))"
  shows "\<exists>ctx. getResumeContext s executionId = Some ctx
           \<and> rc_executionId ctx = executionId
           \<and> ((\<forall>n\<in>set (nodes r). node_status n \<noteq> NODE_COMPLETED) \<longrightarrow>
                  checkpointNodeId ctx = []
                \<and> resumeFromNode ctx = (case nodes r of [] \<Rightarrow> [] | n # _ \<Rightarrow> nodeId n)
                \<and> rc_skippedNodes ctx = []
                \<and> preservedState ctx = JObj [])
           \<and> (\<forall>i. i < length (nodes r) \<and> node_status (nodes r ! i) = NODE_COMPLETED
                   \<and> (\<forall>j. i < j \<and> j < length (nodes r)
                            \<longrightarrow> node_status (nodes r ! j) \<noteq> NODE_COMPLETED) \<longrightarrow>
                  checkpointNodeId ctx = nodeId (nodes r ! i)
                \<and> rc_skippedNodes ctx
                    = map nodeId (filter (\<lambda>n. node_status n = NODE_COMPLETED) (nodes r))
                \<and> resumeFromNode ctx
                    = (if Suc i < length (nodes r) then nodeId (nodes r ! Suc i) else [])
                \<and> preservedState ctx
                    = (case find (\<lambda>c. cp_nodeId c = nodeId (nodes r ! i))
                              (case checkpoints r of None \<Rightarrow> [] | Some cs \<Rightarrow> cs) of
                         None \<Rightarrow> JObj []
                       | Some c \<Rightarrow> if truthy (cp_state c) then cp_state c else JObj []))"
proof (cases "lastCompletedNode (nodes r)")
  case None
  have nc: "\<forall>n\<in>set (nodes r). node_status n \<noteq> NODE_COMPLETED"
    using None by (simp add: lastCompletedNode_def find_None_iff')
  have no_i: "\<not> (i < length (nodes r) \<and> node_status (nodes r ! i) = NODE_COMPLETED)" for i
    using nc by (metis nth_mem)
  show ?thesis
    using assms(1) None no_i
    by (auto simp: getResumeContext_def at_index_def str_or_def split: list.split)
next
  case (Some lc)
  have ex: "\<not> (\<forall>n\<in>set (nodes r). node_status n \<noteq> NODE_COMPLETED)"
    using Some lastCompleted_None by fastforce
  define ctx where "ctx = the (getResumeContext s executionId)"
  have g: "getResumeContext s executionId = Some ctx"
    using assms(1) Some by (simp add: ctx_def getResumeContext_def Let_def)
  have main: "checkpointNodeId ctx = nodeId (nodes r ! i)
                \<and> rc_skippedNodes ctx
                    = map nodeId (filter (\<lambda>n. node_status n = NODE_COMPLETED) (nodes r))
                \<and> resumeFromNode ctx
                    = (if Suc i < length (nodes r) then nodeId (nodes r ! Suc i) else [])
                \<and> preservedState ctx
                    = (case find (\<lambda>c. cp_nodeId c = nodeId (nodes r ! i))
                              (case checkpoints r of None \<Rightarrow> [] | Some cs \<Rightarrow> cs) of
                         None \<Rightarrow> JObj []
                       | Some c \<Rightarrow> if truthy (cp_state c) then cp_state c else JObj [])"
    if i: "i < length (nodes r)" "node_status (nodes r ! i) = NODE_COMPLETED"
       "\<forall>j. i < j \<and> j < length (nodes r) \<longrightarrow> node_status (nodes r ! j) \<noteq> NODE_COMPLETED"
    for i
  proof -
    have lc: "lc = nodes r ! i" using lastCompleted_Some[OF i] Some by simp
    have ix: "findIndex (\<lambda>n. nodeId n = nodeId lc) (nodes r) = Some i"
      unfolding lc by (rule findIndex_distinct[OF assms(2) i(1)])
    show ?thesis
      using assms(1) Some ix
      by (auto simp: ctx_def getResumeContext_def Let_def lc at_index_def str_or_def js_or_def
               split: option.split)
  qed
  have "rc_executionId ctx = executionId"
    using assms(1) Some by (simp add: ctx_def getResumeContext_def Let_def)
  then show ?thesis using g ex main by blast
qed

theorem resume_context_witness:
  "get (ex_store_with [ex_node ''A'' NODE_COMPLETED, ex_node ''B'' NODE_FAILED]
          [ex_checkpoint ''A'' (JObj [])]) ''exec_wf_100_k3''
     = Some (ex_record_with [ex_node ''A'' NODE_COMPLETED, ex_node ''B'' NODE_FAILED]
               [ex_checkpoint ''A'' (JObj [])])
   \<and> distinct (map nodeId [ex_node ''A'' NODE_COMPLETED, ex_node ''B'' NODE_FAILED])
   \<and> (\<exists>ctx. getResumeContext
               (ex_store_with [ex_node ''A'' NODE_COMPLETED, ex_node ''B'' NODE_FAILED]
                  [ex_checkpoint ''A'' (JObj [])]) ''exec_wf_100_k3'' = Some ctx
          \<and> checkpointNodeId ctx = ''A'' \<and> rc_skippedNodes ctx = [''A'']
          \<and> resumeFromNode ctx = ''B'' \<and> preservedState ctx = JObj [])"
proof -
  let ?ns = "[ex_node ''A'' NODE_COMPLETED, ex_node ''B'' NODE_FAILED]"
  let ?cps = "[ex_checkpoint ''A'' (JObj [])]"
  have d: "distinct (map nodeId (nodes (ex_record_with ?ns ?cps)))"
    by (simp add: ex_record_with_fields ex_node_def)
  from resume_context[where s = "ex_store_with ?ns ?cps" and executionId = "''exec_wf_100_k3''"
         and r = "ex_record_with ?ns ?cps", OF ex_store_with_lookup d]
  obtain ctx where g: "getResumeContext (ex_store_with ?ns ?cps) ''exec_wf_100_k3'' = Some ctx"
    and a: "\<forall>i. i < length (nodes (ex_record_with ?ns ?cps))
                 \<and> node_status (nodes (ex_record_with ?ns ?cps) ! i) = NODE_COMPLETED
                 \<and> (\<forall>j. i < j \<and> j < length (nodes (ex_record_with ?ns ?cps))
                        \<longrightarrow> node_status (nodes (ex_record_with ?ns ?cps) ! j) \<noteq> NODE_COMPLETED) \<longrightarrow>
                  checkpointNodeId ctx = nodeId (nodes (ex_record_with ?ns ?cps) ! i)
                \<and> rc_skippedNodes ctx
                    = map nodeId (filter (\<lambda>n. node_status n = NODE_COMPLETED)
                                    (nodes (ex_record_with ?ns ?cps)))
                \<and> resumeFromNode ctx
                    = (if Suc i < length (nodes (ex_record_with ?ns ?cps))
                       then nodeId (nodes (ex_record_with ?ns ?cps) ! Suc i) else [])
                \<and> preservedState ctx
                    = (case find (\<lambda>c. cp_nodeId c = nodeId (nodes (ex_record_with ?ns ?cps) ! i))
                              (case checkpoints (ex_record_with ?ns ?cps) of None \<Rightarrow> [] | Some cs \<Rightarrow> cs) of
                         None \<Rightarrow> JObj []
                       | Some c \<Rightarrow> if truthy (cp_state c) then cp_state c else JObj [])"
    by blast
  have j: "\<forall>j. 0 < j \<and> j < length ?ns \<longrightarrow> node_status (?ns ! j) \<noteq> NODE_COMPLETED"
    by (auto simp: ex_node_def less_Suc_eq)
  from a[rule_format, of 0] j
  have "checkpointNodeId ctx = ''A'' \<and> rc_skippedNodes ctx = [''A'']
          \<and> resumeFromNode ctx = ''B'' \<and> preservedState ctx = JObj []"
    by (simp add: ex_record_with_fields ex_node_def ex_checkpoint_def)
  then show ?thesis using g d ex_store_with_lookup by (auto simp: ex_record_with_fields)
qed

text \<open>
  C4 as stated fails on a checkpoint whose state is falsy: with nodes A (completed) and
  B (failed) and the checkpoint of A holding the state \<open>null\<close>, the preserved state returned is
  the empty object and not the state of the checkpoint.
\<close>

theorem preserved_state_counterexample:
  "map_option preservedState
     (getResumeContext
        (ex_store_with [ex_node ''A'' NODE_COMPLETED, ex_node ''B'' NODE_FAILED]
           [ex_checkpoint ''A'' JNull]) ''exec_wf_100_k3'') = Some (JObj [])
   \<and> map_option checkpointNodeId
     (getResumeContext
        (ex_store_with [ex_node ''A'' NODE_COMPLETED, ex_node ''B'' NODE_FAILED]
           [ex_checkpoint ''A'' JNull]) ''exec_wf_100_k3'') = Some ''A''
   \<and> cp_nodeId (ex_checkpoint ''A'' JNull) = ''A''
   \<and> cp_state (ex_checkpoint ''A'' JNull) = JNull
   \<and> JObj [] \<noteq> JNull"
  by (simp add: getResumeContext_def get_def ex_store_with_def ex_record_with_def
        lastCompletedNode_def ex_node_def ex_checkpoint_def js_or_def Let_def)

section \<open>Properties of the validator\<close>

subsection \<open>The search only extends its state\<close>

lemma dfs_extends_refl: "dfs_extends st st"
  by (simp add: dfs_extends_def)

lemma dfs_extends_trans: "dfs_extends a b \<Longrightarrow> dfs_extends b c \<Longrightarrow> dfs_extends a c"
  by (auto simp: dfs_extends_def)

lemma dfs_cycles_Suc_Some:
  assumes "dfs_cycles (Suc n) adj v path st = Some st'"
  obtains st2 where
    "dfs_neighbors n adj (path @ [v]) (adj_get adj v)
       (st\<lparr>visited := insert v (visited st), recursionStack := insert v (recursionStack st)\<rparr>)
     = Some st2"
    and "st' = st2\<lparr>recursionStack := recursionStack st2 - {v}\<rparr>"
  using assms by (auto split: option.splits)

lemma dfs_frame:
  shows "dfs_cycles n adj v path st = Some st' \<Longrightarrow> recursionStack st \<subseteq> visited st
           \<Longrightarrow> v \<notin> visited st \<Longrightarrow> dfs_extends st st' \<and> v \<in> visited st'"
    and "dfs_neighbors n adj path ws st = Some st' \<Longrightarrow> recursionStack st \<subseteq> visited st
           \<Longrightarrow> dfs_extends st st' \<and> set ws \<subseteq> visited st'"
proof (induction n adj v path st and n adj path ws st arbitrary: st' and st'
       rule: dfs_cycles_dfs_neighbors.induct)
  case (1 adj nodeId path st)
  then show ?case by simp
next
  case (2 fuel adj nodeId path st)
  let ?st0 = "st\<lparr>visited := insert nodeId (visited st),
                  recursionStack := insert nodeId (recursionStack st)\<rparr>"
  from "2.prems"(1) obtain st2 where
    run: "dfs_neighbors fuel adj (path @ [nodeId]) (adj_get adj nodeId) ?st0 = Some st2"
    and st': "st' = st2\<lparr>recursionStack := recursionStack st2 - {nodeId}\<rparr>"
    by (rule dfs_cycles_Suc_Some)
  have "recursionStack ?st0 \<subseteq> visited ?st0" using "2.prems"(2) by auto
  from "2.IH"[OF run this] have ext: "dfs_extends ?st0 st2" by simp
  have "nodeId \<notin> recursionStack st" using "2.prems"(2,3) by auto
  then show ?case using ext st' by (auto simp: dfs_extends_def)
next
  case (3 fuel adj path st)
  then show ?case by (simp add: dfs_extends_def)
next
  case (4 fuel adj path neighbor rest st)
  show ?case
  proof (cases "neighbor \<notin> visited st")
    case True
    with "4.prems"(1) obtain st1 where
      c1: "dfs_cycles fuel adj neighbor path st = Some st1"
      and c2: "dfs_neighbors fuel adj path rest st1 = Some st'"
      by (auto split: option.splits)
    from "4.IH"(1)[OF True c1 "4.prems"(2) True]
    have e1: "dfs_extends st st1" and v1: "neighbor \<in> visited st1" by simp_all
    have s1: "recursionStack st1 \<subseteq> visited st1"
      using e1 "4.prems"(2) by (auto simp: dfs_extends_def)
    from "4.IH"(2)[OF True c1 c2 s1]
    have e2: "dfs_extends st1 st'" and v2: "set rest \<subseteq> visited st'" by simp_all
    have "neighbor \<in> visited st'" using v1 e2 by (auto simp: dfs_extends_def)
    then show ?thesis using dfs_extends_trans[OF e1 e2] v2 by simp
  next
    case False
    note vis = this
    show ?thesis
    proof (cases "neighbor \<in> recursionStack st")
      case True
      let ?st1 = "st\<lparr>cycles := cycles st @ [slice_from (indexOf path neighbor) path @ [neighbor]]\<rparr>"
      from "4.prems"(1) vis True have c: "dfs_neighbors fuel adj path rest ?st1 = Some st'"
        by simp
      have "recursionStack ?st1 \<subseteq> visited ?st1" using "4.prems"(2) by simp
      from "4.IH"(3)[OF vis True c this]
      have e2: "dfs_extends ?st1 st'" and v2: "set rest \<subseteq> visited st'" by simp_all
      have e1: "dfs_extends st ?st1" by (simp add: dfs_extends_def)
      have "visited st \<subseteq> visited st'" using dfs_extends_trans[OF e1 e2] by (simp add: dfs_extends_def)
      then show ?thesis using vis dfs_extends_trans[OF e1 e2] v2 by auto
    next
      case False
      from "4.prems"(1) vis False have c: "dfs_neighbors fuel adj path rest st = Some st'"
        by simp
      from "4.IH"(4)[OF vis False c "4.prems"(2)]
      show ?thesis using vis by (auto simp: dfs_extends_def)
    qed
  qed
qed

subsection \<open>A search without a reported cycle; termination\<close>

lemma finished_mono: "dfs_extends st st' \<Longrightarrow> finished st \<subseteq> finished st'"
  by (auto simp: dfs_extends_def finished_def)

lemma cycles_empty_back: "dfs_extends st st' \<Longrightarrow> cycles st' = [] \<Longrightarrow> cycles st = []"
  by (auto simp: dfs_extends_def)

lemma closed_reach:
  assumes "\<forall>x\<in>F. \<forall>y. (x, y) \<in> E \<longrightarrow> y \<in> F" and "(a, b) \<in> E\<^sup>*" and "a \<in> F"
  shows "b \<in> F"
  using assms(2,3,1) by (induction rule: rtrancl_induct) auto

lemma closed_acyclic_insert:
  assumes ca: "closed_acyclic E F" and succ: "\<forall>y. (v, y) \<in> E \<longrightarrow> y \<in> F" and nv: "v \<notin> F"
  shows "closed_acyclic E (insert v F)"
proof -
  have cl: "\<forall>x\<in>F. \<forall>y. (x, y) \<in> E \<longrightarrow> y \<in> F" using ca by (simp add: closed_acyclic_def)
  have "(v, v) \<notin> E\<^sup>+"
  proof
    assume "(v, v) \<in> E\<^sup>+"
    then obtain w where w: "(v, w) \<in> E" "(w, v) \<in> E\<^sup>*" by (meson tranclD)
    from succ w(1) have "w \<in> F" by simp
    from closed_reach[OF cl w(2) this] nv show False by simp
  qed
  then show ?thesis using ca succ by (auto simp: closed_acyclic_def)
qed

lemma dfs_complete:
  shows "dfs_cycles n adj v path st = Some st' \<Longrightarrow> recursionStack st \<subseteq> visited st
           \<Longrightarrow> v \<notin> visited st \<Longrightarrow> cycles st' = [] \<Longrightarrow> closed_acyclic (adj_rel adj) (finished st)
           \<Longrightarrow> closed_acyclic (adj_rel adj) (finished st') \<and> v \<in> finished st'"
    and "dfs_neighbors n adj path ws st = Some st' \<Longrightarrow> recursionStack st \<subseteq> visited st
           \<Longrightarrow> cycles st' = [] \<Longrightarrow> closed_acyclic (adj_rel adj) (finished st)
           \<Longrightarrow> closed_acyclic (adj_rel adj) (finished st') \<and> set ws \<subseteq> finished st'"
proof (induction n adj v path st and n adj path ws st arbitrary: st' and st'
       rule: dfs_cycles_dfs_neighbors.induct)
  case (1 adj nodeId path st)
  then show ?case by simp
next
  case (2 fuel adj nodeId path st)
  let ?st0 = "st\<lparr>visited := insert nodeId (visited st),
                  recursionStack := insert nodeId (recursionStack st)\<rparr>"
  from "2.prems"(1) obtain st2 where
    run: "dfs_neighbors fuel adj (path @ [nodeId]) (adj_get adj nodeId) ?st0 = Some st2"
    and st': "st' = st2\<lparr>recursionStack := recursionStack st2 - {nodeId}\<rparr>"
    by (rule dfs_cycles_Suc_Some)
  have s0: "recursionStack ?st0 \<subseteq> visited ?st0" using "2.prems"(2) by auto
  have ns: "nodeId \<notin> recursionStack st" using "2.prems"(2,3) by auto
  have f0: "finished ?st0 = finished st" using "2.prems"(3) by (auto simp: finished_def)
  have c2: "cycles st2 = []" using "2.prems"(4) st' by simp
  from dfs_frame(2)[OF run s0] have ext: "dfs_extends ?st0 st2" by simp
  from "2.IH"[OF run s0 c2] "2.prems"(5) f0
  have ca2: "closed_acyclic (adj_rel adj) (finished st2)"
    and sub: "set (adj_get adj nodeId) \<subseteq> finished st2" by simp_all
  have stk: "recursionStack st2 = insert nodeId (recursionStack st)"
    using ext by (simp add: dfs_extends_def)
  have vis: "nodeId \<in> visited st2" using ext by (auto simp: dfs_extends_def)
  have f': "finished st' = insert nodeId (finished st2)"
    using st' stk vis ns by (auto simp: finished_def)
  have nf: "nodeId \<notin> finished st2" using stk by (simp add: finished_def)
  have "\<forall>y. (nodeId, y) \<in> adj_rel adj \<longrightarrow> y \<in> finished st2"
    using sub by (auto simp: adj_rel_def)
  from closed_acyclic_insert[OF ca2 this nf] show ?case using f' by simp
next
  case (3 fuel adj path st)
  then show ?case by simp
next
  case (4 fuel adj path neighbor rest st)
  show ?case
  proof (cases "neighbor \<notin> visited st")
    case True
    with "4.prems"(1) obtain st1 where
      c1: "dfs_cycles fuel adj neighbor path st = Some st1"
      and c2: "dfs_neighbors fuel adj path rest st1 = Some st'"
      by (auto split: option.splits)
    from dfs_frame(1)[OF c1 "4.prems"(2) True] have e1: "dfs_extends st st1" by simp
    have s1: "recursionStack st1 \<subseteq> visited st1"
      using e1 "4.prems"(2) by (auto simp: dfs_extends_def)
    from dfs_frame(2)[OF c2 s1] have e2: "dfs_extends st1 st'" by simp
    have cy1: "cycles st1 = []" using cycles_empty_back[OF e2 "4.prems"(3)] .
    from "4.IH"(1)[OF True c1 "4.prems"(2) True cy1 "4.prems"(4)]
    have ca1: "closed_acyclic (adj_rel adj) (finished st1)" and n1: "neighbor \<in> finished st1"
      by simp_all
    from "4.IH"(2)[OF True c1 c2 s1 "4.prems"(3) ca1]
    have "closed_acyclic (adj_rel adj) (finished st')" and "set rest \<subseteq> finished st'" by simp_all
    then show ?thesis using n1 finished_mono[OF e2] by auto
  next
    case False
    note vis = this
    show ?thesis
    proof (cases "neighbor \<in> recursionStack st")
      case True
      let ?st1 = "st\<lparr>cycles := cycles st @ [slice_from (indexOf path neighbor) path @ [neighbor]]\<rparr>"
      from "4.prems"(1) vis True have c: "dfs_neighbors fuel adj path rest ?st1 = Some st'"
        by simp
      have "recursionStack ?st1 \<subseteq> visited ?st1" using "4.prems"(2) by simp
      from dfs_frame(2)[OF c this] have "dfs_extends ?st1 st'" by simp
      from cycles_empty_back[OF this "4.prems"(3)] show ?thesis by simp
    next
      case False
      from "4.prems"(1) vis False have c: "dfs_neighbors fuel adj path rest st = Some st'"
        by simp
      from dfs_frame(2)[OF c "4.prems"(2)] have e: "dfs_extends st st'" by simp
      have "neighbor \<in> finished st" using vis False by (simp add: finished_def)
      then have "neighbor \<in> finished st'" using finished_mono[OF e] by auto
      moreover from "4.IH"(4)[OF vis False c "4.prems"(2,3,4)]
      have "closed_acyclic (adj_rel adj) (finished st')" and "set rest \<subseteq> finished st'" by simp_all
      ultimately show ?thesis by simp
    qed
  qed
qed

lemma detect_roots_frame:
  "detect_roots n adj ns st = Some st' \<Longrightarrow> recursionStack st \<subseteq> visited st
     \<Longrightarrow> dfs_extends st st' \<and> node_id ` set ns \<subseteq> visited st'"
proof (induction ns arbitrary: st)
  case Nil
  then show ?case by (simp add: dfs_extends_refl)
next
  case (Cons a ns)
  show ?case
  proof (cases "node_id a \<notin> visited st")
    case True
    with Cons.prems(1) obtain st1 where
      c1: "dfs_cycles n adj (node_id a) [] st = Some st1"
      and c2: "detect_roots n adj ns st1 = Some st'"
      by (auto split: option.splits)
    from dfs_frame(1)[OF c1 Cons.prems(2) True]
    have e1: "dfs_extends st st1" and v1: "node_id a \<in> visited st1" by simp_all
    have s1: "recursionStack st1 \<subseteq> visited st1"
      using e1 Cons.prems(2) by (auto simp: dfs_extends_def)
    from Cons.IH[OF c2 s1]
    have e2: "dfs_extends st1 st'" and v2: "node_id ` set ns \<subseteq> visited st'" by simp_all
    have "node_id a \<in> visited st'" using v1 e2 by (auto simp: dfs_extends_def)
    then show ?thesis using dfs_extends_trans[OF e1 e2] v2 by simp
  next
    case False
    with Cons.prems(1) have c: "detect_roots n adj ns st = Some st'" by simp
    from Cons.IH[OF c Cons.prems(2)]
    have e: "dfs_extends st st'" and v: "node_id ` set ns \<subseteq> visited st'" by simp_all
    have "node_id a \<in> visited st'" using False e by (auto simp: dfs_extends_def)
    then show ?thesis using e v by simp
  qed
qed

lemma detect_roots_complete:
  "detect_roots n adj ns st = Some st' \<Longrightarrow> recursionStack st \<subseteq> visited st
     \<Longrightarrow> cycles st' = [] \<Longrightarrow> closed_acyclic (adj_rel adj) (finished st)
     \<Longrightarrow> closed_acyclic (adj_rel adj) (finished st')"
proof (induction ns arbitrary: st)
  case Nil
  then show ?case by simp
next
  case (Cons a ns)
  show ?case
  proof (cases "node_id a \<notin> visited st")
    case True
    with Cons.prems(1) obtain st1 where
      c1: "dfs_cycles n adj (node_id a) [] st = Some st1"
      and c2: "detect_roots n adj ns st1 = Some st'"
      by (auto split: option.splits)
    from dfs_frame(1)[OF c1 Cons.prems(2) True] have e1: "dfs_extends st st1" by simp
    have s1: "recursionStack st1 \<subseteq> visited st1"
      using e1 Cons.prems(2) by (auto simp: dfs_extends_def)
    from detect_roots_frame[OF c2 s1] have e2: "dfs_extends st1 st'" by simp
    have cy1: "cycles st1 = []" using cycles_empty_back[OF e2 Cons.prems(3)] .
    from dfs_complete(1)[OF c1 Cons.prems(2) True cy1 Cons.prems(4)]
    have ca1: "closed_acyclic (adj_rel adj) (finished st1)" by simp
    from Cons.IH[OF c2 s1 Cons.prems(3) ca1] show ?thesis .
  next
    case False
    with Cons.prems(1) have c: "detect_roots n adj ns st = Some st'" by simp
    from Cons.IH[OF c Cons.prems(2,3,4)] show ?thesis .
  qed
qed

text \<open>Termination: a depth bound of the number of unvisited node ids is enough.\<close>

lemma dfs_terminates:
  assumes fin: "finite V"
  shows "\<forall>u. set (adj_get adj u) \<subseteq> V \<Longrightarrow> v \<in> V \<Longrightarrow> v \<notin> visited st
           \<Longrightarrow> recursionStack st \<subseteq> visited st
           \<Longrightarrow> card (V - visited st) \<le> n \<Longrightarrow> \<exists>st'. dfs_cycles n adj v path st = Some st'"
    and "\<forall>u. set (adj_get adj u) \<subseteq> V \<Longrightarrow> set ws \<subseteq> V \<Longrightarrow> recursionStack st \<subseteq> visited st
           \<Longrightarrow> card (V - visited st) \<le> n \<Longrightarrow> \<exists>st'. dfs_neighbors n adj path ws st = Some st'"
proof (induction n adj v path st and n adj path ws st
       rule: dfs_cycles_dfs_neighbors.induct)
  case (1 adj nodeId path st)
  have "nodeId \<in> V - visited st" using 1 by simp
  then have "card (V - visited st) > 0" using fin by (metis card_gt_0_iff empty_iff finite_Diff)
  with 1 show ?case by simp
next
  case (2 fuel adj nodeId path st)
  let ?st0 = "st\<lparr>visited := insert nodeId (visited st),
                  recursionStack := insert nodeId (recursionStack st)\<rparr>"
  have in_d: "nodeId \<in> V - visited st" using "2.prems" by simp
  have "V - visited ?st0 = (V - visited st) - {nodeId}" by auto
  then have "card (V - visited ?st0) = card (V - visited st) - 1"
    using in_d fin by (simp add: card_Diff_singleton)
  moreover have "card (V - visited st) > 0"
    using in_d fin by (metis card_gt_0_iff empty_iff finite_Diff)
  ultimately have c: "card (V - visited ?st0) \<le> fuel" using "2.prems"(5) by simp
  have s0: "recursionStack ?st0 \<subseteq> visited ?st0" using "2.prems"(4) by auto
  have "set (adj_get adj nodeId) \<subseteq> V" using "2.prems"(1) by simp
  from "2.IH"[OF "2.prems"(1) this s0 c] obtain st2 where
    "dfs_neighbors fuel adj (path @ [nodeId]) (adj_get adj nodeId) ?st0 = Some st2" by blast
  then show ?case by simp
next
  case (3 fuel adj path st)
  then show ?case by simp
next
  case (4 fuel adj path neighbor rest st)
  note cl = "4.prems"(1)
  have nV: "neighbor \<in> V" and rV: "set rest \<subseteq> V" using "4.prems"(2) by simp_all
  show ?case
  proof (cases "neighbor \<notin> visited st")
    case True
    from "4.IH"(1)[OF True cl nV True "4.prems"(3,4)] obtain st1 where
      c1: "dfs_cycles fuel adj neighbor path st = Some st1" by blast
    from dfs_frame(1)[OF c1 "4.prems"(3) True] have e1: "dfs_extends st st1" by simp
    have s1: "recursionStack st1 \<subseteq> visited st1"
      using e1 "4.prems"(3) by (auto simp: dfs_extends_def)
    have "V - visited st1 \<subseteq> V - visited st" using e1 by (auto simp: dfs_extends_def)
    then have "card (V - visited st1) \<le> card (V - visited st)"
      using fin by (intro card_mono) auto
    then have k: "card (V - visited st1) \<le> fuel" using "4.prems"(4) by simp
    from "4.IH"(2)[OF True c1 cl rV s1 k] show ?thesis using True c1 by simp
  next
    case False
    note vis = this
    show ?thesis
    proof (cases "neighbor \<in> recursionStack st")
      case True
      let ?st1 = "st\<lparr>cycles := cycles st @ [slice_from (indexOf path neighbor) path @ [neighbor]]\<rparr>"
      have "recursionStack ?st1 \<subseteq> visited ?st1" "card (V - visited ?st1) \<le> fuel"
        using "4.prems"(3,4) by simp_all
      from "4.IH"(3)[OF vis True cl rV this] show ?thesis using vis True by simp
    next
      case False
      from "4.IH"(4)[OF vis False cl rV "4.prems"(3,4)] show ?thesis using vis False by simp
    qed
  qed
qed

lemma detect_roots_terminates:
  assumes fin: "finite V" and cl: "\<forall>u. set (adj_get adj u) \<subseteq> V"
  shows "node_id ` set ns \<subseteq> V \<Longrightarrow> recursionStack st \<subseteq> visited st
           \<Longrightarrow> card (V - visited st) \<le> n \<Longrightarrow> \<exists>st'. detect_roots n adj ns st = Some st'"
proof (induction ns arbitrary: st)
  case Nil
  then show ?case by simp
next
  case (Cons a ns)
  have aV: "node_id a \<in> V" and nsV: "node_id ` set ns \<subseteq> V" using Cons.prems(1) by simp_all
  show ?case
  proof (cases "node_id a \<notin> visited st")
    case True
    from dfs_terminates(1)[OF fin cl aV True Cons.prems(2,3)] obtain st1 where
      c1: "dfs_cycles n adj (node_id a) [] st = Some st1" by blast
    from dfs_frame(1)[OF c1 Cons.prems(2) True] have e1: "dfs_extends st st1" by simp
    have s1: "recursionStack st1 \<subseteq> visited st1"
      using e1 Cons.prems(2) by (auto simp: dfs_extends_def)
    have "V - visited st1 \<subseteq> V - visited st" using e1 by (auto simp: dfs_extends_def)
    then have "card (V - visited st1) \<le> card (V - visited st)"
      using fin by (intro card_mono) auto
    then have k: "card (V - visited st1) \<le> n" using Cons.prems(3) by simp
    from Cons.IH[OF nsV s1 k] show ?thesis using True c1 by simp
  next
    case False
    from Cons.IH[OF nsV Cons.prems(2,3)] show ?thesis using False by simp
  qed
qed

subsection \<open>The adjacency table; cycles are reported\<close>

lemma adj_get_upd: "adj_get (adj(k \<mapsto> xs)) v = (if v = k then xs else adj_get adj v)"
  by (simp add: adj_get_def)

lemma adj_get_fold_edges:
  "adj_get (fold add_edge es adj) v
     = adj_get adj v @ map target (filter (\<lambda>e. is_enabled e \<and> source e = v) es)"
  by (induction es arbitrary: adj) (auto simp: add_edge_def adj_get_upd is_enabled_def)

lemma adj_get_fold_nodes:
  "adj_get adj v = [] \<Longrightarrow> adj_get (fold (\<lambda>n adj. adj(node_id n \<mapsto> [])) ns adj) v = []"
  by (induction ns arbitrary: adj) (auto simp: adj_get_upd)

lemma adj_get_build:
  "adj_get (build_adjacency ns es) v = map target (filter (\<lambda>e. is_enabled e \<and> source e = v) es)"
proof -
  have "adj_get Map.empty v = []" by (simp add: adj_get_def)
  then have "adj_get (fold (\<lambda>n adj. adj(node_id n \<mapsto> [])) ns Map.empty) v = []"
    by (rule adj_get_fold_nodes)
  then show ?thesis by (simp add: build_adjacency_def adj_get_fold_edges)
qed

lemma adj_rel_build: "(u, v) \<in> adj_rel (build_adjacency ns es) \<longleftrightarrow> enabled_edge es u v"
  by (auto simp: adj_rel_def adj_get_build enabled_edge_def list_ex_iff)

lemma graph_ids_card: "card (graph_ids ns es) \<le> length ns + length es"
proof -
  have "card (graph_ids ns es) \<le> card (set (map node_id ns)) + card (set (map target es))"
    unfolding graph_ids_def by (rule card_Un_le)
  also have "\<dots> \<le> length (map node_id ns) + length (map target es)"
    by (intro add_mono card_length)
  finally show ?thesis by simp
qed

lemma graph_ids_closed: "set (adj_get (build_adjacency ns es) u) \<subseteq> graph_ids ns es"
  by (auto simp: adj_get_build graph_ids_def)

lemma detectCycles_returns: "\<exists>cs. detectCycles ns es = Some cs"
proof -
  have fin: "finite (graph_ids ns es)" by (simp add: graph_ids_def)
  have cl: "\<forall>u. set (adj_get (build_adjacency ns es) u) \<subseteq> graph_ids ns es"
    using graph_ids_closed by simp
  have "card (graph_ids ns es - visited dfs_init) \<le> dfs_fuel ns es"
    using graph_ids_card[of ns es] by (simp add: dfs_init_def dfs_fuel_def)
  from detect_roots_terminates[OF fin cl _ _ this, of ns]
  obtain st' where "detect_roots (dfs_fuel ns es) (build_adjacency ns es) ns dfs_init = Some st'"
    by (auto simp: graph_ids_def dfs_init_def)
  then show ?thesis by (simp add: detectCycles_def dfs_init_def)
qed

lemma successively_trancl:
  "successively R (x # y # p) \<Longrightarrow> (x, last (y # p)) \<in> {(a, b). R a b}\<^sup>+"
proof (induction p arbitrary: x y)
  case Nil
  then show ?case by auto
next
  case (Cons z p)
  from Cons.prems have xy: "R x y" and rest: "successively R (y # z # p)" by simp_all
  from Cons.IH[OF rest] have "(y, last (z # p)) \<in> {(a, b). R a b}\<^sup>+" by simp
  with xy show ?case by (simp add: trancl_into_trancl2)
qed

lemma directed_cycle_trancl:
  assumes "directed_cycle es p"
  shows "(hd p, hd p) \<in> {(a, b). enabled_edge es a b}\<^sup>+"
proof -
  from assms obtain x y q where p: "p = x # y # q"
    by (cases p; cases "tl p") (auto simp: directed_cycle_def)
  from assms have "successively (enabled_edge es) (x # y # q)" "x = last (y # q)"
    by (auto simp: directed_cycle_def p)
  with successively_trancl[of "enabled_edge es" x y q] show ?thesis by (simp add: p)
qed

lemma cycle_found:
  assumes cyc: "directed_cycle es p" and hd: "hd p \<in> set (map node_id ns)"
    and det: "detectCycles ns es = Some cs"
  shows "cs \<noteq> []"
proof
  assume e: "cs = []"
  let ?adj = "build_adjacency ns es"
  from det obtain st' where
    run: "detect_roots (dfs_fuel ns es) ?adj ns dfs_init = Some st'" and cs: "cycles st' = cs"
    by (auto simp: detectCycles_def dfs_init_def)
  have s0: "recursionStack dfs_init \<subseteq> visited dfs_init" by (simp add: dfs_init_def)
  have ca0: "closed_acyclic (adj_rel ?adj) (finished dfs_init)"
    by (simp add: closed_acyclic_def finished_def dfs_init_def)
  from detect_roots_frame[OF run s0]
  have ext: "dfs_extends dfs_init st'" and vis: "node_id ` set ns \<subseteq> visited st'" by simp_all
  from detect_roots_complete[OF run s0 _ ca0] cs e
  have ca: "closed_acyclic (adj_rel ?adj) (finished st')" by simp
  have "recursionStack st' = {}" using ext by (simp add: dfs_extends_def dfs_init_def)
  then have "hd p \<in> finished st'" using vis hd by (auto simp: finished_def)
  then have "(hd p, hd p) \<notin> (adj_rel ?adj)\<^sup>+" using ca by (simp add: closed_acyclic_def)
  moreover have "adj_rel ?adj = {(a, b). enabled_edge es a b}"
    using adj_rel_build by auto
  ultimately show False using directed_cycle_trancl[OF cyc] by simp
qed

lemma validate_errors:
  assumes "validateTopology w = Some (tes, tws)" and "calculateStats w = Some st"
  shows "\<exists>res. validate registry w = Some res \<and> valid res = (errors res = [])
           \<and> set tes \<subseteq> set (errors res) \<and> result_stats res = st"
  using assms by (auto simp: validate_def Let_def split: prod.split)

text \<open>
  C1. For every graph definition with a directed cycle along enabled edges among its declared
  nodes, \<open>validate\<close> returns a result that is not valid and whose errors contain at least one
  error with code CIRCULAR_DEPENDENCY.
\<close>

theorem cycle_reported:
  assumes "directed_cycle (wf_edges w) p" and "set p \<subseteq> set (map node_id (wf_nodes w))"
  shows "\<exists>res. validate registry w = Some res \<and> \<not> valid res
           \<and> (\<exists>e\<in>set (errors res). code e = ''CIRCULAR_DEPENDENCY'')"
proof -
  from assms(1) have pne: "p \<noteq> []" by (auto simp: directed_cycle_def)
  then have hd: "hd p \<in> set (map node_id (wf_nodes w))" using assms(2) by auto
  then have nne: "wf_nodes w \<noteq> []" by auto
  obtain cs where det: "detectCycles (wf_nodes w) (wf_edges w) = Some cs"
    using detectCycles_returns by blast
  from cycle_found[OF assms(1) hd det] have cne: "cs \<noteq> []" .
  have topo: "validateTopology w
                = Some (map cycle_error cs, topology_warnings (wf_nodes w) (wf_edges w))"
    using nne det by (simp add: validateTopology_def)
  have "calculateMaxDepth w = Some 0" using nne det cne by (simp add: calculateMaxDepth_def)
  then obtain st where stats: "calculateStats w = Some st" by (simp add: calculateStats_def)
  from validate_errors[OF topo stats, of registry] obtain res where
    res: "validate registry w = Some res" "valid res = (errors res = [])"
      "set (map cycle_error cs) \<subseteq> set (errors res)" by blast
  from cne obtain c where "c \<in> set cs" by (cases cs) auto
  then have in_e: "cycle_error c \<in> set (errors res)" using res(3) by auto
  have "code (cycle_error c) = ''CIRCULAR_DEPENDENCY''" by (simp add: cycle_error_def)
  with in_e res(1,2) show ?thesis by (intro exI[of _ res]) auto
qed

subsection \<open>Nothing is reported on an acyclic graph\<close>

lemma dfs_sound:
  shows "dfs_cycles n adj v path st = Some st' \<Longrightarrow> recursionStack st \<subseteq> visited st
           \<Longrightarrow> v \<notin> visited st \<Longrightarrow> \<forall>x. (x, x) \<notin> (adj_rel adj)\<^sup>+
           \<Longrightarrow> \<forall>x\<in>recursionStack st. (x, v) \<in> (adj_rel adj)\<^sup>+
           \<Longrightarrow> cycles st' = cycles st"
    and "dfs_neighbors n adj path ws st = Some st' \<Longrightarrow> recursionStack st \<subseteq> visited st
           \<Longrightarrow> \<forall>x. (x, x) \<notin> (adj_rel adj)\<^sup>+
           \<Longrightarrow> \<exists>u. (\<forall>x\<in>recursionStack st. (x, u) \<in> (adj_rel adj)\<^sup>*) \<and> set ws \<subseteq> set (adj_get adj u)
           \<Longrightarrow> cycles st' = cycles st"
proof (induction n adj v path st and n adj path ws st arbitrary: st' and st'
       rule: dfs_cycles_dfs_neighbors.induct)
  case (1 adj nodeId path st)
  then show ?case by simp
next
  case (2 fuel adj nodeId path st)
  let ?st0 = "st\<lparr>visited := insert nodeId (visited st),
                  recursionStack := insert nodeId (recursionStack st)\<rparr>"
  from "2.prems"(1) obtain st2 where
    run: "dfs_neighbors fuel adj (path @ [nodeId]) (adj_get adj nodeId) ?st0 = Some st2"
    and st': "st' = st2\<lparr>recursionStack := recursionStack st2 - {nodeId}\<rparr>"
    by (rule dfs_cycles_Suc_Some)
  have s0: "recursionStack ?st0 \<subseteq> visited ?st0" using "2.prems"(2) by auto
  have "\<forall>x\<in>recursionStack ?st0. (x, nodeId) \<in> (adj_rel adj)\<^sup>*"
    using "2.prems"(5) by (auto intro: trancl_into_rtrancl)
  then have "\<exists>u. (\<forall>x\<in>recursionStack ?st0. (x, u) \<in> (adj_rel adj)\<^sup>*)
                 \<and> set (adj_get adj nodeId) \<subseteq> set (adj_get adj u)" by blast
  from "2.IH"[OF run s0 "2.prems"(4) this] show ?case using st' by simp
next
  case (3 fuel adj path st)
  then show ?case by simp
next
  case (4 fuel adj path neighbor rest st)
  from "4.prems"(4) obtain u where
    u: "\<forall>x\<in>recursionStack st. (x, u) \<in> (adj_rel adj)\<^sup>*" "set (neighbor # rest) \<subseteq> set (adj_get adj u)"
    by blast
  have edge: "(u, neighbor) \<in> adj_rel adj" using u(2) by (simp add: adj_rel_def)
  show ?case
  proof (cases "neighbor \<notin> visited st")
    case True
    with "4.prems"(1) obtain st1 where
      c1: "dfs_cycles fuel adj neighbor path st = Some st1"
      and c2: "dfs_neighbors fuel adj path rest st1 = Some st'"
      by (auto split: option.splits)
    from dfs_frame(1)[OF c1 "4.prems"(2) True] have e1: "dfs_extends st st1" by simp
    have s1: "recursionStack st1 \<subseteq> visited st1"
      using e1 "4.prems"(2) by (auto simp: dfs_extends_def)
    have r: "\<forall>x\<in>recursionStack st. (x, neighbor) \<in> (adj_rel adj)\<^sup>+"
      using u(1) edge by (auto intro: rtrancl_into_trancl1)
    from "4.IH"(1)[OF True c1 "4.prems"(2) True "4.prems"(3) r]
    have cy1: "cycles st1 = cycles st" .
    have "\<exists>u. (\<forall>x\<in>recursionStack st1. (x, u) \<in> (adj_rel adj)\<^sup>*) \<and> set rest \<subseteq> set (adj_get adj u)"
      using u e1 by (auto simp: dfs_extends_def)
    from "4.IH"(2)[OF True c1 c2 s1 "4.prems"(3) this] cy1 show ?thesis by simp
  next
    case False
    note vis = this
    show ?thesis
    proof (cases "neighbor \<in> recursionStack st")
      case True
      have "(neighbor, u) \<in> (adj_rel adj)\<^sup>*" using u(1) True by simp
      then have "(neighbor, neighbor) \<in> (adj_rel adj)\<^sup>+"
        using edge by (rule rtrancl_into_trancl1)
      with "4.prems"(3) show ?thesis by simp
    next
      case False
      from "4.prems"(1) vis False have c: "dfs_neighbors fuel adj path rest st = Some st'"
        by simp
      have "\<exists>u. (\<forall>x\<in>recursionStack st. (x, u) \<in> (adj_rel adj)\<^sup>*) \<and> set rest \<subseteq> set (adj_get adj u)"
        using u by auto
      from "4.IH"(4)[OF vis False c "4.prems"(2,3) this] show ?thesis .
    qed
  qed
qed

lemma detect_roots_sound:
  "detect_roots n adj ns st = Some st' \<Longrightarrow> recursionStack st = {}
     \<Longrightarrow> \<forall>x. (x, x) \<notin> (adj_rel adj)\<^sup>+ \<Longrightarrow> cycles st' = cycles st"
proof (induction ns arbitrary: st)
  case Nil
  then show ?case by simp
next
  case (Cons a ns)
  have s: "recursionStack st \<subseteq> visited st" using Cons.prems(2) by simp
  show ?case
  proof (cases "node_id a \<notin> visited st")
    case True
    with Cons.prems(1) obtain st1 where
      c1: "dfs_cycles n adj (node_id a) [] st = Some st1"
      and c2: "detect_roots n adj ns st1 = Some st'"
      by (auto split: option.splits)
    from dfs_frame(1)[OF c1 s True] have e1: "dfs_extends st st1" by simp
    then have s1: "recursionStack st1 = {}" using Cons.prems(2) by (simp add: dfs_extends_def)
    have "\<forall>x\<in>recursionStack st. (x, node_id a) \<in> (adj_rel adj)\<^sup>+" using Cons.prems(2) by simp
    from dfs_sound(1)[OF c1 s True Cons.prems(3) this] have "cycles st1 = cycles st" .
    with Cons.IH[OF c2 s1 Cons.prems(3)] show ?thesis by simp
  next
    case False
    with Cons.prems(1) have c: "detect_roots n adj ns st = Some st'" by simp
    from Cons.IH[OF c Cons.prems(2,3)] show ?thesis .
  qed
qed

lemma trancl_directed_cycle:
  assumes "(a, b) \<in> {(u, v). enabled_edge es u v}\<^sup>+"
  shows "\<exists>p. 2 \<le> length p \<and> hd p = a \<and> last p = b \<and> successively (enabled_edge es) p"
  using assms
proof (induction rule: trancl_induct)
  case (base y)
  then show ?case by (intro exI[of _ "[a, y]"]) simp
next
  case (step y z)
  then obtain p where p: "2 \<le> length p" "hd p = a" "last p = y" "successively (enabled_edge es) p"
    by blast
  then have ne: "p \<noteq> []" by auto
  have "successively (enabled_edge es) (p @ [z])"
    using p(3,4) step.hyps(2) ne by (simp add: successively_append_iff)
  then show ?case using p ne by (intro exI[of _ "p @ [z]"]) simp
qed

lemma no_cycle_irrefl:
  assumes "\<forall>p. \<not> directed_cycle es p"
  shows "\<forall>x. (x, x) \<notin> (adj_rel (build_adjacency ns es))\<^sup>+"
proof (intro allI notI)
  fix x assume "(x, x) \<in> (adj_rel (build_adjacency ns es))\<^sup>+"
  moreover have "adj_rel (build_adjacency ns es) = {(a, b). enabled_edge es a b}"
    using adj_rel_build by auto
  ultimately obtain p where "2 \<le> length p" "hd p = x" "last p = x" "successively (enabled_edge es) p"
    using trancl_directed_cycle[of x x es] by auto
  then have "directed_cycle es p" by (simp add: directed_cycle_def)
  with assms show False by simp
qed

lemma acyclic_no_cycles:
  assumes "\<forall>p. \<not> directed_cycle es p"
  shows "detectCycles ns es = Some []"
proof -
  obtain cs where det: "detectCycles ns es = Some cs" using detectCycles_returns by blast
  then obtain st' where
    run: "detect_roots (dfs_fuel ns es) (build_adjacency ns es) ns dfs_init = Some st'"
    and cs: "cycles st' = cs"
    by (auto simp: detectCycles_def dfs_init_def)
  from detect_roots_sound[OF run _ no_cycle_irrefl[OF assms]]
  have "cycles st' = []" by (simp add: dfs_init_def)
  with det cs show ?thesis by simp
qed

subsection \<open>Longest walks\<close>

lemma longest_from_pos: "longest_from adj v d \<Longrightarrow> 1 \<le> d"
  by (auto simp: longest_from_def walk_from_def Suc_le_eq)

lemma longest_from_unique: "longest_from adj v d \<Longrightarrow> longest_from adj v e \<Longrightarrow> d = e"
  by (metis longest_from_def le_antisym)

lemma walk_from_cases:
  assumes "walk_from adj v p"
  shows "p = [v] \<or> (\<exists>w q. p = v # q \<and> w \<in> set (adj_get adj v) \<and> walk_from adj w q)"
proof (cases p)
  case Nil with assms show ?thesis by (simp add: walk_from_def)
next
  case (Cons a q)
  with assms have a: "a = v" by (simp add: walk_from_def)
  show ?thesis
  proof (cases q)
    case Nil with Cons a show ?thesis by simp
  next
    case (Cons b r)
    with assms \<open>p = a # q\<close> a have "b \<in> set (adj_get adj v)" "walk_from adj b q"
      by (auto simp: walk_from_def)
    then show ?thesis using \<open>p = a # q\<close> a by blast
  qed
qed

lemma walk_from_Cons:
  "w \<in> set (adj_get adj v) \<Longrightarrow> walk_from adj w q \<Longrightarrow> walk_from adj v (v # q)"
  by (cases q) (auto simp: walk_from_def)

lemma longest_from_leaf: "adj_get adj v = [] \<Longrightarrow> longest_from adj v 1"
proof -
  assume e: "adj_get adj v = []"
  have "walk_from adj v [v]" by (simp add: walk_from_def)
  moreover have "length p \<le> 1" if "walk_from adj v p" for p
    using walk_from_cases[OF that] e by auto
  ultimately show ?thesis unfolding longest_from_def by (metis length_Cons list.size(3) One_nat_def)
qed

lemma longest_from_step:
  assumes all: "\<forall>w\<in>set (adj_get adj v). \<exists>d. longest_from adj w d \<and> d \<le> m"
    and ex: "\<exists>w\<in>set (adj_get adj v). longest_from adj w m"
  shows "longest_from adj v (Suc m)"
proof -
  from ex obtain w q where w: "w \<in> set (adj_get adj v)" "walk_from adj w q" "length q = m"
    by (auto simp: longest_from_def)
  have "walk_from adj v (v # q)" using walk_from_Cons[OF w(1,2)] .
  then have e: "\<exists>p. walk_from adj v p \<and> length p = Suc m" using w(3) by (intro exI[of _ "v # q"]) simp
  have "length p \<le> Suc m" if "walk_from adj v p" for p
  proof -
    from walk_from_cases[OF that] show ?thesis
    proof
      assume "p = [v]" then show ?thesis by simp
    next
      assume "\<exists>w q. p = v # q \<and> w \<in> set (adj_get adj v) \<and> walk_from adj w q"
      then obtain w' q' where p: "p = v # q'" "w' \<in> set (adj_get adj v)" "walk_from adj w' q'" by blast
      from all p(2) obtain d where "longest_from adj w' d" "d \<le> m" by blast
      then have "length q' \<le> m" using p(3) by (auto simp: longest_from_def)
      then show ?thesis using p(1) by simp
    qed
  qed
  with e show ?thesis by (simp add: longest_from_def)
qed

lemma depth_dfs_Suc_cases:
  assumes "depth_dfs (Suc n) adj v st = Some (d, st')"
  obtains (hit) "memo st v = Some d" "st' = st"
    | (busy) "memo st v = None" "v \<in> visiting st" "d = 0" "st' = st"
    | (leaf) "memo st v = None" "v \<notin> visiting st" "adj_get adj v = []" "d = 1"
        "st' = st\<lparr>memo := (memo st)(v \<mapsto> 1), visiting := insert v (visiting st) - {v}\<rparr>"
    | (inner) m st2 where "memo st v = None" "v \<notin> visiting st" "adj_get adj v \<noteq> []"
        "depth_children n adj (adj_get adj v) 0 (st\<lparr>visiting := insert v (visiting st)\<rparr>) = Some (m, st2)"
        "d = Suc m" "st' = st2\<lparr>memo := (memo st2)(v \<mapsto> Suc m), visiting := visiting st2 - {v}\<rparr>"
  using assms by (auto simp: Let_def split: option.splits if_splits)

lemma depth_frame:
  shows "depth_dfs n adj v st = Some (d, st') \<Longrightarrow> visiting st' = visiting st \<and> memo st \<subseteq>\<^sub>m memo st'"
    and "depth_children n adj ws m st = Some (m', st') \<Longrightarrow> visiting st' = visiting st \<and> memo st \<subseteq>\<^sub>m memo st'"
proof (induction n adj v st and n adj ws m st arbitrary: d st' and m' st'
       rule: depth_dfs_depth_children.induct)
  case (1 adj nodeId st)
  then show ?case by simp
next
  case (2 fuel adj nodeId st)
  from "2.prems" show ?case
  proof (cases rule: depth_dfs_Suc_cases)
    case hit then show ?thesis by simp
  next
    case busy then show ?thesis by simp
  next
    case leaf then show ?thesis by (auto simp: map_le_def)
  next
    case (inner m st2)
    from "2.IH"[OF inner(1,2) refl refl inner(3,4)]
    have "visiting st2 = insert nodeId (visiting st)" "memo st \<subseteq>\<^sub>m memo st2" by simp_all
    then show ?thesis using inner(1,2,6) by (auto simp: map_le_def dom_def)
  qed
next
  case (3 fuel adj maxChildDepth st)
  then show ?case by simp
next
  case (4 fuel adj neighbor rest maxChildDepth st)
  from "4.prems" obtain d st1 where
    c1: "depth_dfs fuel adj neighbor st = Some (d, st1)"
    and c2: "depth_children fuel adj rest (max maxChildDepth d) st1 = Some (m', st')"
    by (auto split: option.splits)
  from "4.IH"(1)[OF c1] "4.IH"(2)[OF c1 refl c2] show ?case
    by (auto intro: map_le_trans)
qed

subsection \<open>The depth search\<close>

lemma memo_bounded_refl: "memo_bounded m m d"
  by (simp add: memo_bounded_def)

lemma memo_bounded_trans:
  "memo_bounded m m1 d \<Longrightarrow> memo_bounded m1 m2 e \<Longrightarrow> d \<le> e \<Longrightarrow> memo_bounded m m2 e"
  unfolding memo_bounded_def by (metis le_trans)

lemma memo_bounded_mono: "memo_bounded m m' d \<Longrightarrow> d \<le> e \<Longrightarrow> memo_bounded m m' e"
  unfolding memo_bounded_def by (metis le_trans)

lemma depth_correct:
  shows "depth_dfs n adj v st = Some (d, st') \<Longrightarrow> \<forall>x. (x, x) \<notin> (adj_rel adj)\<^sup>+
           \<Longrightarrow> memo_ok adj (memo st) \<Longrightarrow> \<forall>x\<in>visiting st. (x, v) \<in> (adj_rel adj)\<^sup>+
           \<Longrightarrow> memo_ok adj (memo st') \<and> longest_from adj v d \<and> memo st' v = Some d
               \<and> memo_bounded (memo st) (memo st') d"
    and "depth_children n adj ws m st = Some (m', st') \<Longrightarrow> \<forall>x. (x, x) \<notin> (adj_rel adj)\<^sup>+
           \<Longrightarrow> memo_ok adj (memo st)
           \<Longrightarrow> \<exists>u. (\<forall>x\<in>visiting st. (x, u) \<in> (adj_rel adj)\<^sup>*) \<and> set ws \<subseteq> set (adj_get adj u)
           \<Longrightarrow> memo_ok adj (memo st') \<and> m \<le> m'
               \<and> (\<forall>w\<in>set ws. \<exists>e. longest_from adj w e \<and> e \<le> m')
               \<and> (m' = m \<or> (\<exists>w\<in>set ws. longest_from adj w m'))
               \<and> memo_bounded (memo st) (memo st') m'"
proof (induction n adj v st and n adj ws m st arbitrary: d st' and m' st'
       rule: depth_dfs_depth_children.induct)
  case (1 adj nodeId st)
  then show ?case by simp
next
  case (2 fuel adj nodeId st)
  from "2.prems"(1) show ?case
  proof (cases rule: depth_dfs_Suc_cases)
    case hit
    then show ?thesis using "2.prems"(3) by (simp add: memo_ok_def memo_bounded_refl)
  next
    case busy
    then show ?thesis using "2.prems"(2,4) by auto
  next
    case leaf
    have l: "longest_from adj nodeId 1" using longest_from_leaf[OF leaf(3)] .
    have ms: "memo st' = (memo st)(nodeId \<mapsto> 1)" using leaf(5) by simp
    have "memo_ok adj (memo st')" unfolding ms using "2.prems"(3) l by (simp add: memo_ok_def)
    moreover have "memo_bounded (memo st) (memo st') 1"
      unfolding ms by (simp add: memo_bounded_def)
    moreover have "memo st' nodeId = Some 1" unfolding ms by simp
    ultimately show ?thesis using l leaf(4) by blast
  next
    case (inner m st2)
    let ?st1 = "st\<lparr>visiting := insert nodeId (visiting st)\<rparr>"
    have "\<forall>x\<in>visiting ?st1. (x, nodeId) \<in> (adj_rel adj)\<^sup>*"
      using "2.prems"(4) by (auto intro: trancl_into_rtrancl)
    then have pre: "\<exists>u. (\<forall>x\<in>visiting ?st1. (x, u) \<in> (adj_rel adj)\<^sup>*)
                      \<and> set (adj_get adj nodeId) \<subseteq> set (adj_get adj u)" by blast
    have mo: "memo_ok adj (memo ?st1)" using "2.prems"(3) by simp
    from "2.IH"[OF inner(1,2) refl refl inner(3,4) "2.prems"(2) mo pre]
    have ok2: "memo_ok adj (memo st2)"
      and all: "\<forall>w\<in>set (adj_get adj nodeId). \<exists>e. longest_from adj w e \<and> e \<le> m"
      and some: "m = 0 \<or> (\<exists>w\<in>set (adj_get adj nodeId). longest_from adj w m)"
      and bd: "memo_bounded (memo st) (memo st2) m" by simp_all
    from inner(3) obtain w where w: "w \<in> set (adj_get adj nodeId)" by (cases "adj_get adj nodeId") auto
    with all obtain e where "longest_from adj w e" "e \<le> m" by blast
    then have "1 \<le> m" using longest_from_pos[of adj w e] by simp
    with some have ex: "\<exists>w\<in>set (adj_get adj nodeId). longest_from adj w m" by simp
    have l: "longest_from adj nodeId (Suc m)" using longest_from_step[OF all ex] .
    have ms: "memo st' = (memo st2)(nodeId \<mapsto> Suc m)" using inner(6) by simp
    have "memo_ok adj (memo st')" unfolding ms using ok2 l by (simp add: memo_ok_def)
    moreover have "memo_bounded (memo st) (memo st') (Suc m)"
      unfolding ms using bd unfolding memo_bounded_def by (auto simp: le_Suc_eq)
    moreover have "memo st' nodeId = Some (Suc m)" unfolding ms by simp
    ultimately show ?thesis using l inner(5) by blast
  qed
next
  case (3 fuel adj maxChildDepth st)
  then show ?case by (simp add: memo_bounded_refl)
next
  case (4 fuel adj neighbor rest maxChildDepth st)
  from "4.prems"(1) obtain d st1 where
    c1: "depth_dfs fuel adj neighbor st = Some (d, st1)"
    and c2: "depth_children fuel adj rest (max maxChildDepth d) st1 = Some (m', st')"
    by (auto split: option.splits)
  from "4.prems"(4) obtain u where
    u: "\<forall>x\<in>visiting st. (x, u) \<in> (adj_rel adj)\<^sup>*" "set (neighbor # rest) \<subseteq> set (adj_get adj u)"
    by blast
  have edge: "(u, neighbor) \<in> adj_rel adj" using u(2) by (simp add: adj_rel_def)
  have r: "\<forall>x\<in>visiting st. (x, neighbor) \<in> (adj_rel adj)\<^sup>+"
    using u(1) edge by (auto intro: rtrancl_into_trancl1)
  from "4.IH"(1)[OF c1 "4.prems"(2,3) r]
  have ok1: "memo_ok adj (memo st1)" and l1: "longest_from adj neighbor d"
    and b1: "memo_bounded (memo st) (memo st1) d" by simp_all
  from depth_frame(1)[OF c1] have v1: "visiting st1 = visiting st" by simp
  have pre: "\<exists>u. (\<forall>x\<in>visiting st1. (x, u) \<in> (adj_rel adj)\<^sup>*) \<and> set rest \<subseteq> set (adj_get adj u)"
    using u v1 by auto
  from "4.IH"(2)[OF c1 refl c2 "4.prems"(2) ok1 pre]
  have ok': "memo_ok adj (memo st')" and le: "max maxChildDepth d \<le> m'"
    and all: "\<forall>w\<in>set rest. \<exists>e. longest_from adj w e \<and> e \<le> m'"
    and some: "m' = max maxChildDepth d \<or> (\<exists>w\<in>set rest. longest_from adj w m')"
    and b2: "memo_bounded (memo st1) (memo st') m'" by simp_all
  have a: "\<forall>w\<in>set (neighbor # rest). \<exists>e. longest_from adj w e \<and> e \<le> m'"
    using all l1 le by auto
  have s: "m' = maxChildDepth \<or> (\<exists>w\<in>set (neighbor # rest). longest_from adj w m')"
    using some l1 by (auto simp: max_def split: if_splits)
  have b: "memo_bounded (memo st) (memo st') m'"
    using memo_bounded_trans[OF b1 b2] le by simp
  show ?case using ok' le a s b by simp
qed

lemma depth_roots_correct:
  "depth_roots n adj ns m st = Some (m', st') \<Longrightarrow> \<forall>x. (x, x) \<notin> (adj_rel adj)\<^sup>+
     \<Longrightarrow> memo_ok adj (memo st) \<Longrightarrow> visiting st = {} \<Longrightarrow> memo_bounded Map.empty (memo st) m
     \<Longrightarrow> memo_ok adj (memo st') \<and> memo_bounded Map.empty (memo st') m'
         \<and> (\<forall>a\<in>set ns. memo st' (node_id a) \<noteq> None) \<and> memo st \<subseteq>\<^sub>m memo st' \<and> m \<le> m'
         \<and> (m' = m \<or> (\<exists>a\<in>set ns. longest_from adj (node_id a) m'))"
proof (induction ns arbitrary: m st)
  case Nil
  then show ?case by simp
next
  case (Cons a ns)
  show ?case
  proof (cases "memo st (node_id a) = None")
    case True
    with Cons.prems(1) obtain d st1 where
      c1: "depth_dfs n adj (node_id a) st = Some (d, st1)"
      and c2: "depth_roots n adj ns (max m d) st1 = Some (m', st')"
      by (auto split: option.splits)
    have "\<forall>x\<in>visiting st. (x, node_id a) \<in> (adj_rel adj)\<^sup>+" using Cons.prems(4) by simp
    from depth_correct(1)[OF c1 Cons.prems(2,3) this]
    have ok1: "memo_ok adj (memo st1)" and l1: "longest_from adj (node_id a) d"
      and in1: "memo st1 (node_id a) = Some d"
      and b1: "memo_bounded (memo st) (memo st1) d" by simp_all
    from depth_frame(1)[OF c1] have v1: "visiting st1 = {}" and sub1: "memo st \<subseteq>\<^sub>m memo st1"
      using Cons.prems(4) by simp_all
    have bb: "memo_bounded Map.empty (memo st1) (max m d)"
      using Cons.prems(5) b1 unfolding memo_bounded_def by (metis max.coboundedI1 max.coboundedI2 option.distinct(1))
    from Cons.IH[OF c2 Cons.prems(2) ok1 v1 bb]
    have ok': "memo_ok adj (memo st')" and b': "memo_bounded Map.empty (memo st') m'"
      and all: "\<forall>a\<in>set ns. memo st' (node_id a) \<noteq> None" and sub2: "memo st1 \<subseteq>\<^sub>m memo st'"
      and le: "max m d \<le> m'"
      and some: "m' = max m d \<or> (\<exists>a\<in>set ns. longest_from adj (node_id a) m')" by simp_all
    have "memo st' (node_id a) = Some d" using in1 sub2 by (auto simp: map_le_def dom_def)
    then have a: "\<forall>b\<in>set (a # ns). memo st' (node_id b) \<noteq> None" using all by simp
    have s: "m' = m \<or> (\<exists>b\<in>set (a # ns). longest_from adj (node_id b) m')"
      using some l1 by (auto simp: max_def split: if_splits)
    show ?thesis using ok' b' a map_le_trans[OF sub1 sub2] le s by simp
  next
    case False
    with Cons.prems(1) have c: "depth_roots n adj ns m st = Some (m', st')" by simp
    from Cons.IH[OF c Cons.prems(2,3,4,5)]
    have ok': "memo_ok adj (memo st')" and b': "memo_bounded Map.empty (memo st') m'"
      and all: "\<forall>a\<in>set ns. memo st' (node_id a) \<noteq> None" and sub: "memo st \<subseteq>\<^sub>m memo st'"
      and le: "m \<le> m'"
      and some: "m' = m \<or> (\<exists>a\<in>set ns. longest_from adj (node_id a) m')" by simp_all
    from False obtain e where "memo st (node_id a) = Some e" by auto
    then have "memo st' (node_id a) = Some e" using sub by (auto simp: map_le_def dom_def)
    then show ?thesis using ok' b' all sub le some by auto
  qed
qed

lemma depth_terminates:
  assumes fin: "finite V"
  shows "\<forall>u. set (adj_get adj u) \<subseteq> V \<Longrightarrow> v \<in> V \<Longrightarrow> card (V - visiting st) < n
           \<Longrightarrow> \<exists>r. depth_dfs n adj v st = Some r"
    and "\<forall>u. set (adj_get adj u) \<subseteq> V \<Longrightarrow> set ws \<subseteq> V \<Longrightarrow> card (V - visiting st) < n
           \<Longrightarrow> \<exists>r. depth_children n adj ws m st = Some r"
proof (induction n adj v st and n adj ws m st rule: depth_dfs_depth_children.induct)
  case (1 adj nodeId st)
  then show ?case by simp
next
  case (2 fuel adj nodeId st)
  show ?case
  proof (cases "memo st nodeId")
    case (Some d) then show ?thesis by simp
  next
    case None
    show ?thesis
    proof (cases "nodeId \<in> visiting st")
      case True then show ?thesis using None by simp
    next
      case False
      let ?st1 = "st\<lparr>visiting := insert nodeId (visiting st)\<rparr>"
      show ?thesis
      proof (cases "adj_get adj nodeId = []")
        case True then show ?thesis using None False by (simp add: Let_def)
      next
        case ne: False
        have in_d: "nodeId \<in> V - visiting st" using "2.prems"(2) False by simp
        have "V - visiting ?st1 = (V - visiting st) - {nodeId}" by auto
        then have "card (V - visiting ?st1) = card (V - visiting st) - 1"
          using in_d fin by (simp add: card_Diff_singleton)
        moreover have "card (V - visiting st) > 0"
          using in_d fin by (metis card_gt_0_iff empty_iff finite_Diff)
        ultimately have c: "card (V - visiting ?st1) < fuel" using "2.prems"(3) by simp
        have "set (adj_get adj nodeId) \<subseteq> V" using "2.prems"(1) by simp
        from "2.IH"[OF None False refl refl ne "2.prems"(1) this c]
        obtain r where "depth_children fuel adj (adj_get adj nodeId) 0 ?st1 = Some r" by blast
        then show ?thesis using None False ne by (cases r) (simp add: Let_def)
      qed
    qed
  qed
next
  case (3 fuel adj maxChildDepth st)
  then show ?case by simp
next
  case (4 fuel adj neighbor rest maxChildDepth st)
  have nV: "neighbor \<in> V" and rV: "set rest \<subseteq> V" using "4.prems"(2) by simp_all
  from "4.IH"(1)[OF "4.prems"(1) nV "4.prems"(3)] obtain d st1 where
    c1: "depth_dfs fuel adj neighbor st = Some (d, st1)" by auto
  from depth_frame(1)[OF c1] have "visiting st1 = visiting st" by simp
  then have k: "card (V - visiting st1) < fuel" using "4.prems"(3) by simp
  from "4.IH"(2)[OF c1 refl "4.prems"(1) rV k] show ?case using c1 by simp
qed

lemma depth_roots_terminates:
  assumes fin: "finite V" and cl: "\<forall>u. set (adj_get adj u) \<subseteq> V"
  shows "node_id ` set ns \<subseteq> V \<Longrightarrow> card (V - visiting st) < n
           \<Longrightarrow> \<exists>r. depth_roots n adj ns m st = Some r"
proof (induction ns arbitrary: m st)
  case Nil
  then show ?case by simp
next
  case (Cons a ns)
  have aV: "node_id a \<in> V" and nsV: "node_id ` set ns \<subseteq> V" using Cons.prems(1) by simp_all
  show ?case
  proof (cases "memo st (node_id a) = None")
    case True
    from depth_terminates(1)[OF fin cl aV Cons.prems(2)] obtain d st1 where
      c1: "depth_dfs n adj (node_id a) st = Some (d, st1)" by auto
    from depth_frame(1)[OF c1] have "visiting st1 = visiting st" by simp
    then have k: "card (V - visiting st1) < n" using Cons.prems(2) by simp
    from Cons.IH[OF nsV k] show ?thesis using True c1 by simp
  next
    case False
    then obtain e where e: "memo st (node_id a) = Some e" by auto
    from Cons.IH[OF nsV Cons.prems(2)] show ?thesis using e by simp
  qed
qed

subsection \<open>The depth statistic\<close>

lemma depth_roots_returns:
  "\<exists>r. depth_roots (dfs_fuel ns es) (build_adjacency ns es) ns 0 depth_init = Some r"
proof -
  have fin: "finite (graph_ids ns es)" by (simp add: graph_ids_def)
  have cl: "\<forall>u. set (adj_get (build_adjacency ns es) u) \<subseteq> graph_ids ns es"
    using graph_ids_closed by simp
  have "card (graph_ids ns es - visiting depth_init) < dfs_fuel ns es"
    using graph_ids_card[of ns es] by (simp add: depth_init_def dfs_fuel_def)
  from depth_roots_terminates[OF fin cl _ this, of ns 0] show ?thesis
    by (auto simp: graph_ids_def)
qed

lemma calculateMaxDepth_returns: "\<exists>d. calculateMaxDepth w = Some d"
proof -
  obtain cs where "detectCycles (wf_nodes w) (wf_edges w) = Some cs"
    using detectCycles_returns by blast
  moreover obtain r where
    "depth_roots (dfs_fuel (wf_nodes w) (wf_edges w)) (build_adjacency (wf_nodes w) (wf_edges w))
       (wf_nodes w) 0 depth_init = Some r"
    using depth_roots_returns by blast
  ultimately show ?thesis by (simp add: calculateMaxDepth_def depth_init_def)
qed

lemma validateTopology_returns: "\<exists>r. validateTopology w = Some r"
proof -
  obtain cs where "detectCycles (wf_nodes w) (wf_edges w) = Some cs"
    using detectCycles_returns by blast
  then show ?thesis by (simp add: validateTopology_def)
qed

lemma validate_returns:
  "\<exists>res tes tws d.
      validate registry w = Some res
      \<and> validateTopology w = Some (tes, tws) \<and> calculateMaxDepth w = Some d
      \<and> valid res = (errors res = [])
      \<and> errors res = schema_errors w @ fst (validateNodes registry {} (wf_nodes w))
                       @ fst (validateEdges (wf_edges w) (wf_nodes w)) @ tes @ settings_errors w
      \<and> warnings res = schema_warnings w @ snd (validateNodes registry {} (wf_nodes w))
                       @ snd (validateEdges (wf_edges w) (wf_nodes w)) @ tws @ settings_warnings w
      \<and> maxDepth (result_stats res) = d
      \<and> startNodes (result_stats res)
          = length (filter (\<lambda>n. node_id n \<notin> nodesWithInputs (wf_edges w)) (wf_nodes w))
      \<and> endNodes (result_stats res)
          = length (filter (\<lambda>n. node_id n \<notin> nodesWithOutputs (wf_edges w)) (wf_nodes w))"
proof -
  obtain r where r: "validateTopology w = Some r" using validateTopology_returns by blast
  obtain tes tws where p: "r = (tes, tws)" by (cases r)
  obtain d where d: "calculateMaxDepth w = Some d" using calculateMaxDepth_returns by blast
  show ?thesis
    using r p d by (simp add: validate_def calculateStats_def Let_def split: prod.split)
qed

lemma walk_from_build:
  "walk_from (build_adjacency ns es) v p
     \<longleftrightarrow> p \<noteq> [] \<and> hd p = v \<and> successively (enabled_edge es) p"
proof -
  have "(\<lambda>a b. b \<in> set (adj_get (build_adjacency ns es) a)) = enabled_edge es"
    using adj_rel_build[of _ _ ns es] by (auto simp: adj_rel_def fun_eq_iff)
  then have "successively (\<lambda>a b. b \<in> set (adj_get (build_adjacency ns es) a)) p
               = successively (enabled_edge es) p"
    by (rule arg_cong[where f = "\<lambda>R. successively R p"])
  then show ?thesis unfolding walk_from_def by (rule arg_cong2[OF refl, THEN arg_cong2[OF refl]])
qed

lemma acyclic_max_depth:
  assumes ac: "\<forall>p. \<not> directed_cycle (wf_edges w) p"
  shows "\<exists>d. calculateMaxDepth w = Some d
           \<and> (\<forall>p. chain w p \<longrightarrow> length p \<le> d)
           \<and> (wf_nodes w \<noteq> [] \<longrightarrow> (\<exists>p. chain w p \<and> length p = d))
           \<and> (wf_nodes w = [] \<longrightarrow> d = 0)"
proof (cases "wf_nodes w = []")
  case True
  then have "calculateMaxDepth w = Some 0" by (simp add: calculateMaxDepth_def)
  moreover have "\<not> chain w p" for p using True by (simp add: chain_def)
  ultimately show ?thesis using True by simp
next
  case False
  let ?ns = "wf_nodes w" and ?es = "wf_edges w"
  let ?adj = "build_adjacency ?ns ?es"
  have det: "detectCycles ?ns ?es = Some []" using acyclic_no_cycles[OF ac] .
  obtain m st' where run: "depth_roots (dfs_fuel ?ns ?es) ?adj ?ns 0 depth_init = Some (m, st')"
    using depth_roots_returns[of ?ns ?es] by auto
  have cm: "calculateMaxDepth w = Some m"
    using False det run by (simp add: calculateMaxDepth_def depth_init_def)
  have irr: "\<forall>x. (x, x) \<notin> (adj_rel ?adj)\<^sup>+" using no_cycle_irrefl[OF ac] .
  have i1: "memo_ok ?adj (memo depth_init)" by (simp add: memo_ok_def depth_init_def)
  have i2: "visiting depth_init = {}" by (simp add: depth_init_def)
  have i3: "memo_bounded Map.empty (memo depth_init) 0" by (simp add: memo_bounded_def depth_init_def)
  from depth_roots_correct[OF run irr i1 i2 i3]
  have ok: "memo_ok ?adj (memo st')" and bd: "memo_bounded Map.empty (memo st') m"
    and all: "\<forall>a\<in>set ?ns. memo st' (node_id a) \<noteq> None"
    and some: "m = 0 \<or> (\<exists>a\<in>set ?ns. longest_from ?adj (node_id a) m)" by simp_all
  have upper: "length p \<le> m" if "chain w p" for p
  proof -
    from that obtain a where a: "a \<in> set ?ns" "hd p = node_id a" by (auto simp: chain_def)
    from all a(1) obtain e where e: "memo st' (node_id a) = Some e" by auto
    have "walk_from ?adj (node_id a) p" using that a(2) by (simp add: walk_from_build chain_def)
    moreover have "longest_from ?adj (node_id a) e" using ok e by (simp add: memo_ok_def)
    ultimately have "length p \<le> e" by (simp add: longest_from_def)
    moreover have "e \<le> m" using bd e by (simp add: memo_bounded_def)
    ultimately show ?thesis by simp
  qed
  have ex: "\<exists>p. chain w p \<and> length p = m"
  proof -
    from False obtain a where a: "a \<in> set ?ns" by (cases ?ns) auto
    from all a obtain e where e: "memo st' (node_id a) = Some e" by auto
    have "longest_from ?adj (node_id a) e" using ok e by (simp add: memo_ok_def)
    then have "1 \<le> e" by (rule longest_from_pos)
    moreover have "e \<le> m" using bd e by (simp add: memo_bounded_def)
    ultimately have "m \<noteq> 0" by simp
    with some obtain b where b: "b \<in> set ?ns" "longest_from ?adj (node_id b) m" by blast
    then obtain p where "walk_from ?adj (node_id b) p" "length p = m"
      by (auto simp: longest_from_def)
    then have "chain w p" using b(1) by (auto simp: walk_from_build chain_def)
    then show ?thesis using \<open>length p = m\<close> by blast
  qed
  show ?thesis using cm upper ex False by blast
qed

lemma cycles_max_depth:
  assumes "detectCycles (wf_nodes w) (wf_edges w) = Some cs" and "cs \<noteq> []"
  shows "calculateMaxDepth w = Some 0"
  using assms by (simp add: calculateMaxDepth_def)

text \<open>
  C2. \<open>validate\<close> always returns a result. For every graph definition without a directed
  cycle along enabled edges its \<open>maxDepth\<close> is the number of nodes of the longest chain (a walk
  along enabled edges that starts at a declared node): no chain is longer, and if the graph has
  a node some chain has exactly that many nodes; for the empty graph it is 0. For every graph
  in which \<open>detectCycles\<close> finds a cycle, \<open>maxDepth\<close> is 0. A chain A, B, C has depth 3; two
  two-hop paths that meet in one sink give depth 3.
\<close>

theorem max_depth_longest_chain:
  "\<exists>res. validate registry w = Some res
     \<and> ((\<forall>p. \<not> directed_cycle (wf_edges w) p) \<longrightarrow>
            (\<forall>p. chain w p \<longrightarrow> length p \<le> maxDepth (result_stats res))
          \<and> (wf_nodes w \<noteq> [] \<longrightarrow> (\<exists>p. chain w p \<and> length p = maxDepth (result_stats res)))
          \<and> (wf_nodes w = [] \<longrightarrow> maxDepth (result_stats res) = 0))
     \<and> ((\<exists>cs. detectCycles (wf_nodes w) (wf_edges w) = Some cs \<and> cs \<noteq> [])
          \<longrightarrow> maxDepth (result_stats res) = 0)"
proof -
  from validate_returns[of registry w] obtain res d where
    res: "validate registry w = Some res" "calculateMaxDepth w = Some d"
      "maxDepth (result_stats res) = d" by blast
  have a: "(\<forall>p. chain w p \<longrightarrow> length p \<le> d)
          \<and> (wf_nodes w \<noteq> [] \<longrightarrow> (\<exists>p. chain w p \<and> length p = d))
          \<and> (wf_nodes w = [] \<longrightarrow> d = 0)"
    if "\<forall>p. \<not> directed_cycle (wf_edges w) p"
    using acyclic_max_depth[OF that] res(2) by simp
  have b: "d = 0" if "\<exists>cs. detectCycles (wf_nodes w) (wf_edges w) = Some cs \<and> cs \<noteq> []"
    using that cycles_max_depth res(2) by fastforce
  show ?thesis using res(1,3) a b by (intro exI[of _ res]) simp
qed

subsection \<open>The depth bound and the disabled edges\<close>

lemma add_edge_disabled: "\<not> is_enabled e \<Longrightarrow> add_edge e adj = adj"
  by (simp add: add_edge_def is_enabled_def)

lemma fold_add_edge_filter: "fold add_edge (filter is_enabled es) adj = fold add_edge es adj"
  by (induction es arbitrary: adj) (simp_all add: add_edge_disabled)

lemma build_adjacency_filter:
  "build_adjacency ns (filter is_enabled es) = build_adjacency ns es"
  by (simp add: build_adjacency_def fold_add_edge_filter)

lemma dfs_fuel_mono:
  shows "dfs_cycles n adj v path st = Some st' \<Longrightarrow> n \<le> k \<Longrightarrow> dfs_cycles k adj v path st = Some st'"
    and "dfs_neighbors n adj path ws st = Some st' \<Longrightarrow> n \<le> k
           \<Longrightarrow> dfs_neighbors k adj path ws st = Some st'"
proof (induction n adj v path st and n adj path ws st arbitrary: st' k and st' k
       rule: dfs_cycles_dfs_neighbors.induct)
  case (1 adj nodeId path st)
  then show ?case by simp
next
  case (2 fuel adj nodeId path st)
  from "2.prems"(2) obtain k' where k: "k = Suc k'" "fuel \<le> k'" by (cases k) auto
  from "2.prems"(1) obtain st2 where
    run: "dfs_neighbors fuel adj (path @ [nodeId]) (adj_get adj nodeId)
            (st\<lparr>visited := insert nodeId (visited st),
                recursionStack := insert nodeId (recursionStack st)\<rparr>) = Some st2"
    and st': "st' = st2\<lparr>recursionStack := recursionStack st2 - {nodeId}\<rparr>"
    by (rule dfs_cycles_Suc_Some)
  from "2.IH"[OF run k(2)] st' k(1) show ?case by simp
next
  case (3 fuel adj path st)
  then show ?case by simp
next
  case (4 fuel adj path neighbor rest st)
  show ?case
  proof (cases "neighbor \<notin> visited st")
    case True
    with "4.prems"(1) obtain st1 where
      c1: "dfs_cycles fuel adj neighbor path st = Some st1"
      and c2: "dfs_neighbors fuel adj path rest st1 = Some st'"
      by (auto split: option.splits)
    from "4.IH"(1)[OF True c1 "4.prems"(2)] "4.IH"(2)[OF True c1 c2 "4.prems"(2)] True
    show ?thesis by simp
  next
    case False
    note vis = this
    show ?thesis
    proof (cases "neighbor \<in> recursionStack st")
      case True
      from "4.prems"(1) vis True
      have "dfs_neighbors fuel adj path rest
              (st\<lparr>cycles := cycles st @ [slice_from (indexOf path neighbor) path @ [neighbor]]\<rparr>)
            = Some st'" by simp
      from "4.IH"(3)[OF vis True this "4.prems"(2)] vis True show ?thesis by simp
    next
      case False
      from "4.prems"(1) vis False have "dfs_neighbors fuel adj path rest st = Some st'" by simp
      from "4.IH"(4)[OF vis False this "4.prems"(2)] vis False show ?thesis by simp
    qed
  qed
qed

lemma detect_roots_mono:
  "detect_roots n adj ns st = Some st' \<Longrightarrow> n \<le> k \<Longrightarrow> detect_roots k adj ns st = Some st'"
proof (induction ns arbitrary: st)
  case Nil
  then show ?case by simp
next
  case (Cons a ns)
  show ?case
  proof (cases "node_id a \<notin> visited st")
    case True
    with Cons.prems(1) obtain st1 where
      c1: "dfs_cycles n adj (node_id a) [] st = Some st1"
      and c2: "detect_roots n adj ns st1 = Some st'"
      by (auto split: option.splits)
    from dfs_fuel_mono(1)[OF c1 Cons.prems(2)] Cons.IH[OF c2 Cons.prems(2)] True
    show ?thesis by simp
  next
    case False
    with Cons.prems(1) have "detect_roots n adj ns st = Some st'" by simp
    from Cons.IH[OF this Cons.prems(2)] False show ?thesis by simp
  qed
qed

lemma depth_fuel_mono:
  shows "depth_dfs n adj v st = Some r \<Longrightarrow> n \<le> k \<Longrightarrow> depth_dfs k adj v st = Some r"
    and "depth_children n adj ws m st = Some r \<Longrightarrow> n \<le> k \<Longrightarrow> depth_children k adj ws m st = Some r"
proof (induction n adj v st and n adj ws m st arbitrary: r k and r k
       rule: depth_dfs_depth_children.induct)
  case (1 adj nodeId st)
  then show ?case by simp
next
  case (2 fuel adj nodeId st)
  from "2.prems"(2) obtain k' where k: "k = Suc k'" "fuel \<le> k'" by (cases k) auto
  obtain d st' where r: "r = (d, st')" by (cases r)
  from "2.prems"(1)[unfolded r] show ?case
  proof (cases rule: depth_dfs_Suc_cases)
    case hit then show ?thesis using k(1) r by simp
  next
    case busy then show ?thesis using k(1) r by simp
  next
    case leaf then show ?thesis using k(1) r by (simp add: Let_def)
  next
    case (inner m st2)
    from "2.IH"[OF inner(1,2) refl refl inner(3,4) k(2)]
    show ?thesis using inner k(1) r by (simp add: Let_def)
  qed
next
  case (3 fuel adj maxChildDepth st)
  then show ?case by simp
next
  case (4 fuel adj neighbor rest maxChildDepth st)
  from "4.prems"(1) obtain d st1 where
    c1: "depth_dfs fuel adj neighbor st = Some (d, st1)"
    and c2: "depth_children fuel adj rest (max maxChildDepth d) st1 = Some r"
    by (auto split: option.splits)
  from "4.IH"(1)[OF c1 "4.prems"(2)] "4.IH"(2)[OF c1 refl c2 "4.prems"(2)]
  show ?case by simp
qed

lemma depth_roots_mono:
  "depth_roots n adj ns m st = Some r \<Longrightarrow> n \<le> k \<Longrightarrow> depth_roots k adj ns m st = Some r"
proof (induction ns arbitrary: m st)
  case Nil
  then show ?case by simp
next
  case (Cons a ns)
  show ?case
  proof (cases "memo st (node_id a) = None")
    case True
    with Cons.prems(1) obtain d st1 where
      c1: "depth_dfs n adj (node_id a) st = Some (d, st1)"
      and c2: "depth_roots n adj ns (max m d) st1 = Some r"
      by (auto split: option.splits)
    from depth_fuel_mono(1)[OF c1 Cons.prems(2)] Cons.IH[OF c2 Cons.prems(2)] True
    show ?thesis by simp
  next
    case False
    then obtain e where e: "memo st (node_id a) = Some e" by auto
    with Cons.prems(1) have "depth_roots n adj ns m st = Some r" by simp
    from Cons.IH[OF this Cons.prems(2)] e show ?thesis by simp
  qed
qed

lemma detectCycles_enabled_only:
  "detectCycles ns (filter is_enabled es) = detectCycles ns es"
proof -
  let ?adj = "build_adjacency ns es"
  let ?fs = "filter is_enabled es"
  have le: "dfs_fuel ns ?fs \<le> dfs_fuel ns es" by (simp add: dfs_fuel_def)
  obtain cs where "detectCycles ns ?fs = Some cs" using detectCycles_returns by blast
  then obtain st' where run: "detect_roots (dfs_fuel ns ?fs) ?adj ns dfs_init = Some st'"
    by (auto simp: detectCycles_def build_adjacency_filter dfs_init_def)
  from detect_roots_mono[OF run le]
  have "detect_roots (dfs_fuel ns es) ?adj ns dfs_init = Some st'" .
  with run show ?thesis by (simp add: detectCycles_def build_adjacency_filter dfs_init_def)
qed

lemma calculateMaxDepth_enabled_only:
  "calculateMaxDepth (w\<lparr>wf_edges := filter is_enabled (wf_edges w)\<rparr>) = calculateMaxDepth w"
proof -
  let ?ns = "wf_nodes w" and ?es = "wf_edges w"
  let ?adj = "build_adjacency ?ns ?es"
  let ?fs = "filter is_enabled ?es"
  have le: "dfs_fuel ?ns ?fs \<le> dfs_fuel ?ns ?es" by (simp add: dfs_fuel_def)
  obtain r where run: "depth_roots (dfs_fuel ?ns ?fs) ?adj ?ns 0 depth_init = Some r"
    using depth_roots_returns[of ?ns ?fs] by (auto simp: build_adjacency_filter)
  from depth_roots_mono[OF run le]
  have "depth_roots (dfs_fuel ?ns ?es) ?adj ?ns 0 depth_init = Some r" .
  with run show ?thesis
    by (simp add: calculateMaxDepth_def detectCycles_enabled_only build_adjacency_filter depth_init_def
          split: option.split)
qed

text \<open>The checks that look at every edge do not read the \<open>enabled\<close> field.\<close>

lemma nodesWith_enabled_irrelevant:
  "nodesWithInputs (map (\<lambda>e. e\<lparr>enabled := g e\<rparr>) es) = nodesWithInputs es"
  "nodesWithOutputs (map (\<lambda>e. e\<lparr>enabled := g e\<rparr>) es) = nodesWithOutputs es"
  by (simp_all add: nodesWithInputs_def nodesWithOutputs_def comp_def)

lemma topology_warnings_enabled_irrelevant:
  "topology_warnings ns (map (\<lambda>e. e\<lparr>enabled := g e\<rparr>) es) = topology_warnings ns es"
  by (simp add: topology_warnings_def nodesWith_enabled_irrelevant)

subsection \<open>Error codes and the edge checks\<close>

lemma schema_errors_codes: "\<forall>e\<in>set (schema_errors w). \<not> is_cycle_error e"
  by (auto simp: schema_errors_def is_cycle_error_def)

lemma node_errors_codes: "\<forall>e\<in>set (node_errors registry seen n). \<not> is_cycle_error e"
  by (auto simp: node_errors_def is_cycle_error_def)

lemma validateNodes_fst:
  "fst (validateNodes registry seen (n # ns))
     = node_errors registry seen n @ fst (validateNodes registry (insert (node_id n) seen) ns)"
  by (simp add: Let_def split: prod.split)

lemma validateNodes_codes: "\<forall>e\<in>set (fst (validateNodes registry seen ns)). \<not> is_cycle_error e"
proof (induction ns arbitrary: seen)
  case Nil
  then show ?case by simp
next
  case (Cons n ns)
  show ?case unfolding validateNodes_fst using node_errors_codes Cons.IH by auto
qed

lemma edge_errors_codes: "\<forall>e\<in>set (edge_errors ids seen x). \<not> is_cycle_error e"
  by (auto simp: edge_errors_def is_cycle_error_def)

lemma validateEdges_loop_fst:
  "fst (validateEdges_loop es ids seen (x # rest))
     = edge_errors ids seen x @ fst (validateEdges_loop es ids (insert (edge_id x) seen) rest)"
  by (simp add: Let_def split: prod.split)

lemma validateEdges_loop_codes:
  "\<forall>e\<in>set (fst (validateEdges_loop es ids seen rest)). \<not> is_cycle_error e"
proof (induction rest arbitrary: seen)
  case Nil
  then show ?case by simp
next
  case (Cons x rest)
  show ?case unfolding validateEdges_loop_fst using edge_errors_codes Cons.IH by auto
qed

lemma settings_errors_codes: "\<forall>e\<in>set (settings_errors w). \<not> is_cycle_error e"
  by (auto simp: settings_errors_def is_cycle_error_def split: option.split)

lemma cycle_errors_codes: "\<forall>e\<in>set (map cycle_error cs). is_cycle_error e"
  by (simp add: cycle_error_def is_cycle_error_def)

lemma filter_none: "\<forall>e\<in>set xs. \<not> P e \<Longrightarrow> filter P xs = []"
  by (induction xs) auto

lemma filter_all: "\<forall>e\<in>set xs. P e \<Longrightarrow> filter P xs = xs"
  by (induction xs) auto

lemma validateTopology_errors:
  "validateTopology w = Some (tes, tws) \<Longrightarrow> \<exists>cs. tes = map cycle_error cs"
  by (auto simp: validateTopology_def split: if_splits option.splits)

lemma validate_cycle_errors:
  assumes "validate registry w = Some res" and "validateTopology w = Some (tes, tws)"
    and "errors res = schema_errors w @ fst (validateNodes registry {} (wf_nodes w))
                       @ fst (validateEdges (wf_edges w) (wf_nodes w)) @ tes @ settings_errors w"
  shows "filter is_cycle_error (errors res) = tes"
proof -
  from validateTopology_errors[OF assms(2)] obtain cs where tes: "tes = map cycle_error cs" by blast
  show ?thesis
    unfolding assms(3) tes
    by (simp add: filter_none[OF schema_errors_codes] filter_none[OF validateNodes_codes]
          filter_none[OF validateEdges_loop_codes] filter_none[OF settings_errors_codes]
          filter_all[OF cycle_errors_codes] validateEdges_def)
qed

lemma validateTopology_enabled_only:
  "fst (the (validateTopology (w\<lparr>wf_edges := filter is_enabled (wf_edges w)\<rparr>)))
     = fst (the (validateTopology w))"
proof -
  obtain cs where "detectCycles (wf_nodes w) (wf_edges w) = Some cs"
    using detectCycles_returns by blast
  then show ?thesis by (simp add: validateTopology_def detectCycles_enabled_only)
qed

text \<open>The edge checks do not read the \<open>enabled\<close> field either.\<close>

lemma find_map_option: "find P (map h xs) = map_option h (find (\<lambda>x. P (h x)) xs)"
  by (induction xs) auto

lemma edge_checks_enabled_irrelevant:
  "edge_errors ids seen (e\<lparr>enabled := x\<rparr>) = edge_errors ids seen e"
  "edge_warnings (map (\<lambda>e. e\<lparr>enabled := g e\<rparr>) es) (e\<lparr>enabled := x\<rparr>) = edge_warnings es e"
  by (simp_all add: edge_errors_def edge_warnings_def duplicateEdge_def find_map_option
        option.case_eq_if option.map_sel)

lemma validateEdges_loop_enabled_irrelevant:
  "validateEdges_loop (map (\<lambda>e. e\<lparr>enabled := g e\<rparr>) es) ids seen (map (\<lambda>e. e\<lparr>enabled := g e\<rparr>) rest)
     = validateEdges_loop es ids seen rest"
  by (induction rest arbitrary: seen) (simp_all add: edge_checks_enabled_irrelevant)

lemma validateEdges_enabled_irrelevant:
  "validateEdges (map (\<lambda>e. e\<lparr>enabled := g e\<rparr>) es) ns = validateEdges es ns"
  by (simp add: validateEdges_def validateEdges_loop_enabled_irrelevant)

subsection \<open>The checks that read every edge\<close>

lemma schema_warnings_codes: "\<forall>x\<in>set (schema_warnings w). \<not> is_topology_warning x"
  by (auto simp: schema_warnings_def is_topology_warning_def Let_def)

lemma node_warnings_codes: "\<forall>x\<in>set (node_warnings n). \<not> is_topology_warning x"
  by (auto simp: node_warnings_def is_topology_warning_def split: if_splits)

lemma validateNodes_snd:
  "snd (validateNodes registry seen (n # ns))
     = node_warnings n @ snd (validateNodes registry (insert (node_id n) seen) ns)"
  by (simp add: Let_def split: prod.split)

lemma validateNodes_warning_codes:
  "\<forall>x\<in>set (snd (validateNodes registry seen ns)). \<not> is_topology_warning x"
proof (induction ns arbitrary: seen)
  case Nil
  then show ?case by simp
next
  case (Cons n ns)
  show ?case unfolding validateNodes_snd using node_warnings_codes Cons.IH by auto
qed

lemma edge_warnings_codes: "\<forall>x\<in>set (edge_warnings es e). \<not> is_topology_warning x"
  by (auto simp: edge_warnings_def is_topology_warning_def split: if_splits option.splits)

lemma validateEdges_loop_snd:
  "snd (validateEdges_loop es ids seen (x # rest))
     = edge_warnings es x @ snd (validateEdges_loop es ids (insert (edge_id x) seen) rest)"
  by (simp add: Let_def split: prod.split)

lemma validateEdges_loop_warning_codes:
  "\<forall>x\<in>set (snd (validateEdges_loop es ids seen rest)). \<not> is_topology_warning x"
proof (induction rest arbitrary: seen)
  case Nil
  then show ?case by simp
next
  case (Cons x rest)
  show ?case unfolding validateEdges_loop_snd using edge_warnings_codes Cons.IH by auto
qed

lemma settings_warnings_codes: "\<forall>x\<in>set (settings_warnings w). \<not> is_topology_warning x"
  by (auto simp: settings_warnings_def is_topology_warning_def split: option.split)

lemma filter_code_none:
  assumes "\<forall>x\<in>set ws. \<not> is_topology_warning x"
    and "c = ''ISOLATED_NODE'' \<or> c = ''NO_START_NODE'' \<or> c = ''NO_END_NODE''"
  shows "filter (\<lambda>x. w_code x = c) ws = []"
  using assms by (auto simp: is_topology_warning_def filter_empty_conv)

text \<open>Among the warnings of a result, those of the three checks come from \<open>validateTopology\<close>.\<close>

lemma validate_topology_warnings:
  assumes "warnings res = schema_warnings w @ snd (validateNodes registry {} (wf_nodes w))
                       @ snd (validateEdges (wf_edges w) (wf_nodes w)) @ tws @ settings_warnings w"
    and "c = ''ISOLATED_NODE'' \<or> c = ''NO_START_NODE'' \<or> c = ''NO_END_NODE''"
  shows "filter (\<lambda>x. w_code x = c) (warnings res) = filter (\<lambda>x. w_code x = c) tws"
  unfolding assms(1)
  by (simp add: filter_code_none[OF schema_warnings_codes assms(2)]
        filter_code_none[OF validateNodes_warning_codes assms(2)]
        filter_code_none[OF validateEdges_loop_warning_codes assms(2)]
        filter_code_none[OF settings_warnings_codes assms(2)] validateEdges_def)

lemma validateTopology_warnings:
  assumes "validateTopology w = Some (tes, tws)"
    and "c = ''ISOLATED_NODE'' \<or> c = ''NO_START_NODE'' \<or> c = ''NO_END_NODE''"
  shows "filter (\<lambda>x. w_code x = c) tws
           = filter (\<lambda>x. w_code x = c) (topology_warnings (wf_nodes w) (wf_edges w))"
proof (cases "wf_nodes w = []")
  case True
  then have "tws = [\<lparr>w_code = ''EMPTY_WORKFLOW'', w_message = ''Workflow has no nodes'',
                    w_nodeId = None, suggestion = Some ''Add at least one node''\<rparr>]"
    using assms(1) by (simp add: validateTopology_def)
  then show ?thesis using True assms(2) by (auto simp: topology_warnings_def)
next
  case False
  then show ?thesis using assms(1) by (auto simp: validateTopology_def split: option.splits)
qed

lemma no_input_filter_empty:
  "(filter (\<lambda>n. node_id n \<notin> nodesWithInputs es) ns = [])
     \<longleftrightarrow> node_id ` set ns \<subseteq> target ` set es"
  by (auto simp: filter_empty_conv nodesWithInputs_def)

lemma no_output_filter_empty:
  "(filter (\<lambda>n. node_id n \<notin> nodesWithOutputs es) ns = [])
     \<longleftrightarrow> node_id ` set ns \<subseteq> source ` set es"
  by (auto simp: filter_empty_conv nodesWithOutputs_def)

lemma topology_warnings_isolated:
  "map w_nodeId (filter (\<lambda>x. w_code x = ''ISOLATED_NODE'') (topology_warnings ns es))
     = map (\<lambda>n. Some (node_id n))
         (filter (\<lambda>n. node_id n \<notin> target ` set es \<and> node_id n \<notin> source ` set es) ns)"
  by (simp add: topology_warnings_def filter_map comp_def isolated_warning_def
        nodesWithInputs_def nodesWithOutputs_def)

lemma topology_warnings_no_start:
  "length (filter (\<lambda>x. w_code x = ''NO_START_NODE'') (topology_warnings ns es))
     = (if ns \<noteq> [] \<and> node_id ` set ns \<subseteq> target ` set es then 1 else 0)"
  unfolding topology_warnings_def no_input_filter_empty no_output_filter_empty
  by (simp add: filter_map comp_def isolated_warning_def)

lemma topology_warnings_no_end:
  "length (filter (\<lambda>x. w_code x = ''NO_END_NODE'') (topology_warnings ns es))
     = (if ns \<noteq> [] \<and> node_id ` set ns \<subseteq> source ` set es then 1 else 0)"
  unfolding topology_warnings_def no_input_filter_empty no_output_filter_empty
  by (simp add: filter_map comp_def isolated_warning_def)

subsection \<open>The scope of the enabled flag; evaluated examples\<close>

text \<open>
  C10. An edge whose \<open>enabled\<close> field is \<open>false\<close> does not enter the adjacency table, so cycle
  detection, the CIRCULAR_DEPENDENCY errors and \<open>maxDepth\<close> are those of the graph without its
  disabled edges; when the enabled edges alone form no directed cycle, no CIRCULAR_DEPENDENCY
  error is reported and the depth of a graph with nodes is positive. The other checks count
  every edge, enabled or not: \<open>startNodes\<close> is the number of nodes that are the target of no
  edge and \<open>endNodes\<close> the number of nodes that are the source of no edge; there is one
  ISOLATED_NODE warning, in node order, for each node that is neither source nor target of an
  edge; there is one NO_START_NODE warning when the graph has nodes and each is the target of
  some edge, and none otherwise; likewise NO_END_NODE with the sources. In particular all
  warnings and both statistics stay the same however the \<open>enabled\<close> flags are changed.
  In a chain A, B, C whose edge from B to C is disabled the depth is 2, yet C is not isolated
  and there is one start node and one end node; with that edge removed C is isolated and
  there are two of each.
\<close>

theorem enabled_flag_scope:
  "build_adjacency (wf_nodes w) (filter is_enabled (wf_edges w))
     = build_adjacency (wf_nodes w) (wf_edges w)
   \<and> detectCycles (wf_nodes w) (filter is_enabled (wf_edges w))
       = detectCycles (wf_nodes w) (wf_edges w)
   \<and> (\<exists>res res1 res2.
         validate registry w = Some res
       \<and> validate registry (w\<lparr>wf_edges := filter is_enabled (wf_edges w)\<rparr>) = Some res1
       \<and> validate registry (w\<lparr>wf_edges := map (\<lambda>e. e\<lparr>enabled := g e\<rparr>) (wf_edges w)\<rparr>) = Some res2
       \<and> filter is_cycle_error (errors res1) = filter is_cycle_error (errors res)
       \<and> maxDepth (result_stats res1) = maxDepth (result_stats res)
       \<and> warnings res2 = warnings res
       \<and> startNodes (result_stats res2) = startNodes (result_stats res)
       \<and> endNodes (result_stats res2) = endNodes (result_stats res)
       \<and> startNodes (result_stats res)
           = length (filter (\<lambda>n. node_id n \<notin> target ` set (wf_edges w)) (wf_nodes w))
       \<and> endNodes (result_stats res)
           = length (filter (\<lambda>n. node_id n \<notin> source ` set (wf_edges w)) (wf_nodes w))
       \<and> map w_nodeId (filter (\<lambda>x. w_code x = ''ISOLATED_NODE'') (warnings res))
           = map (\<lambda>n. Some (node_id n))
               (filter (\<lambda>n. node_id n \<notin> target ` set (wf_edges w)
                           \<and> node_id n \<notin> source ` set (wf_edges w)) (wf_nodes w))
       \<and> length (filter (\<lambda>x. w_code x = ''NO_START_NODE'') (warnings res))
           = (if wf_nodes w \<noteq> [] \<and> node_id ` set (wf_nodes w) \<subseteq> target ` set (wf_edges w)
              then 1 else 0)
       \<and> length (filter (\<lambda>x. w_code x = ''NO_END_NODE'') (warnings res))
           = (if wf_nodes w \<noteq> [] \<and> node_id ` set (wf_nodes w) \<subseteq> source ` set (wf_edges w)
              then 1 else 0)
       \<and> ((\<forall>p. \<not> directed_cycle (wf_edges w) p) \<longrightarrow>
              filter is_cycle_error (errors res) = []
            \<and> (wf_nodes w \<noteq> [] \<longrightarrow> 0 < maxDepth (result_stats res))))"
proof -
  let ?w1 = "w\<lparr>wf_edges := filter is_enabled (wf_edges w)\<rparr>"
  let ?w2 = "w\<lparr>wf_edges := map (\<lambda>e. e\<lparr>enabled := g e\<rparr>) (wf_edges w)\<rparr>"
  from validate_returns[of registry w] obtain res tes tws d where
    r: "validate registry w = Some res" "validateTopology w = Some (tes, tws)"
       "calculateMaxDepth w = Some d"
       "errors res = schema_errors w @ fst (validateNodes registry {} (wf_nodes w))
                       @ fst (validateEdges (wf_edges w) (wf_nodes w)) @ tes @ settings_errors w"
       "warnings res = schema_warnings w @ snd (validateNodes registry {} (wf_nodes w))
                       @ snd (validateEdges (wf_edges w) (wf_nodes w)) @ tws @ settings_warnings w"
       "maxDepth (result_stats res) = d"
       "startNodes (result_stats res)
          = length (filter (\<lambda>n. node_id n \<notin> nodesWithInputs (wf_edges w)) (wf_nodes w))"
       "endNodes (result_stats res)
          = length (filter (\<lambda>n. node_id n \<notin> nodesWithOutputs (wf_edges w)) (wf_nodes w))"
    by blast
  from validate_returns[of registry ?w1] obtain res1 tes1 tws1 d1 where
    r1: "validate registry ?w1 = Some res1" "validateTopology ?w1 = Some (tes1, tws1)"
       "calculateMaxDepth ?w1 = Some d1"
       "errors res1 = schema_errors ?w1 @ fst (validateNodes registry {} (wf_nodes ?w1))
                       @ fst (validateEdges (wf_edges ?w1) (wf_nodes ?w1)) @ tes1 @ settings_errors ?w1"
       "maxDepth (result_stats res1) = d1"
    by blast
  from validate_returns[of registry ?w2] obtain res2 tes2 tws2 d2 where
    r2: "validate registry ?w2 = Some res2" "validateTopology ?w2 = Some (tes2, tws2)"
       "warnings res2 = schema_warnings ?w2 @ snd (validateNodes registry {} (wf_nodes ?w2))
                       @ snd (validateEdges (wf_edges ?w2) (wf_nodes ?w2)) @ tws2 @ settings_warnings ?w2"
       "startNodes (result_stats res2)
          = length (filter (\<lambda>n. node_id n \<notin> nodesWithInputs (wf_edges ?w2)) (wf_nodes ?w2))"
       "endNodes (result_stats res2)
          = length (filter (\<lambda>n. node_id n \<notin> nodesWithOutputs (wf_edges ?w2)) (wf_nodes ?w2))"
    by blast
  have c1: "filter is_cycle_error (errors res1) = tes1"
    using validate_cycle_errors[OF r1(1,2,4)] .
  have c: "filter is_cycle_error (errors res) = tes"
    using validate_cycle_errors[OF r(1,2,4)] .
  have "tes1 = tes" using validateTopology_enabled_only[of w] r(2) r1(2) by simp
  then have e1: "filter is_cycle_error (errors res1) = filter is_cycle_error (errors res)"
    using c1 c by simp
  have e2: "maxDepth (result_stats res1) = maxDepth (result_stats res)"
    using calculateMaxDepth_enabled_only[of w] r(3,6) r1(3,5) by simp
  have "tws2 = tws"
    using r(2) r2(2)
    by (auto simp: validateTopology_def topology_warnings_enabled_irrelevant
             split: if_splits option.splits)
  then have e3: "warnings res2 = warnings res"
    unfolding r(5) r2(3)
    by (simp add: validateEdges_enabled_irrelevant schema_warnings_def settings_warnings_def)
  have e4: "startNodes (result_stats res2) = startNodes (result_stats res)"
       "endNodes (result_stats res2) = endNodes (result_stats res)"
    unfolding r(7,8) r2(4,5) by (simp_all add: nodesWith_enabled_irrelevant)
  have e5: "filter is_cycle_error (errors res) = []
            \<and> (wf_nodes w \<noteq> [] \<longrightarrow> 0 < maxDepth (result_stats res))"
    if ac: "\<forall>p. \<not> directed_cycle (wf_edges w) p"
  proof -
    have "detectCycles (wf_nodes w) (wf_edges w) = Some []" using acyclic_no_cycles[OF ac] .
    then have "tes = []" using r(2) by (auto simp: validateTopology_def split: if_splits)
    then have a: "filter is_cycle_error (errors res) = []" using c by simp
    from acyclic_max_depth[OF ac] r(3)
    have "wf_nodes w \<noteq> [] \<longrightarrow> (\<exists>p. chain w p \<and> length p = d)" by simp
    then have "wf_nodes w \<noteq> [] \<longrightarrow> 0 < d" by (auto simp: chain_def)
    then show ?thesis using a r(6) by simp
  qed
  have e6: "startNodes (result_stats res)
           = length (filter (\<lambda>n. node_id n \<notin> target ` set (wf_edges w)) (wf_nodes w))"
       "endNodes (result_stats res)
           = length (filter (\<lambda>n. node_id n \<notin> source ` set (wf_edges w)) (wf_nodes w))"
    unfolding r(7,8) by (simp_all add: nodesWithInputs_def nodesWithOutputs_def)
  have e7: "map w_nodeId (filter (\<lambda>x. w_code x = ''ISOLATED_NODE'') (warnings res))
           = map (\<lambda>n. Some (node_id n))
               (filter (\<lambda>n. node_id n \<notin> target ` set (wf_edges w)
                           \<and> node_id n \<notin> source ` set (wf_edges w)) (wf_nodes w))"
    using validate_topology_warnings[OF r(5), of "''ISOLATED_NODE''"]
      validateTopology_warnings[OF r(2), of "''ISOLATED_NODE''"]
      topology_warnings_isolated[of "wf_nodes w" "wf_edges w"]
    by simp
  have e8: "length (filter (\<lambda>x. w_code x = ''NO_START_NODE'') (warnings res))
           = (if wf_nodes w \<noteq> [] \<and> node_id ` set (wf_nodes w) \<subseteq> target ` set (wf_edges w)
              then 1 else 0)"
    using validate_topology_warnings[OF r(5), of "''NO_START_NODE''"]
      validateTopology_warnings[OF r(2), of "''NO_START_NODE''"]
      topology_warnings_no_start[of "wf_nodes w" "wf_edges w"]
    by simp
  have e9: "length (filter (\<lambda>x. w_code x = ''NO_END_NODE'') (warnings res))
           = (if wf_nodes w \<noteq> [] \<and> node_id ` set (wf_nodes w) \<subseteq> source ` set (wf_edges w)
              then 1 else 0)"
    using validate_topology_warnings[OF r(5), of "''NO_END_NODE''"]
      validateTopology_warnings[OF r(2), of "''NO_END_NODE''"]
      topology_warnings_no_end[of "wf_nodes w" "wf_edges w"]
    by simp
  have e: "filter is_cycle_error (errors res1) = filter is_cycle_error (errors res)
       \<and> maxDepth (result_stats res1) = maxDepth (result_stats res)
       \<and> warnings res2 = warnings res
       \<and> startNodes (result_stats res2) = startNodes (result_stats res)
       \<and> endNodes (result_stats res2) = endNodes (result_stats res)"
    using e1 e2 e3 e4 by simp
  have t: "startNodes (result_stats res)
           = length (filter (\<lambda>n. node_id n \<notin> target ` set (wf_edges w)) (wf_nodes w))
       \<and> endNodes (result_stats res)
           = length (filter (\<lambda>n. node_id n \<notin> source ` set (wf_edges w)) (wf_nodes w))
       \<and> map w_nodeId (filter (\<lambda>x. w_code x = ''ISOLATED_NODE'') (warnings res))
           = map (\<lambda>n. Some (node_id n))
               (filter (\<lambda>n. node_id n \<notin> target ` set (wf_edges w)
                           \<and> node_id n \<notin> source ` set (wf_edges w)) (wf_nodes w))
       \<and> length (filter (\<lambda>x. w_code x = ''NO_START_NODE'') (warnings res))
           = (if wf_nodes w \<noteq> [] \<and> node_id ` set (wf_nodes w) \<subseteq> target ` set (wf_edges w)
              then 1 else 0)
       \<and> length (filter (\<lambda>x. w_code x = ''NO_END_NODE'') (warnings res))
           = (if wf_nodes w \<noteq> [] \<and> node_id ` set (wf_nodes w) \<subseteq> source ` set (wf_edges w)
              then 1 else 0)"
    using e6 e7 e8 e9 by simp
  have a: "(\<forall>p. \<not> directed_cycle (wf_edges w) p) \<longrightarrow>
              filter is_cycle_error (errors res) = []
            \<and> (wf_nodes w \<noteq> [] \<longrightarrow> 0 < maxDepth (result_stats res))"
    using e5 by blast
  show ?thesis
    using build_adjacency_filter[of "wf_nodes w" "wf_edges w"]
      detectCycles_enabled_only[of "wf_nodes w" "wf_edges w"] r(1) r1(1) r2(1) e t a
    by blast
qed


lemma rank_no_cycle:
  fixes rank :: "string \<Rightarrow> nat"
  assumes "\<forall>u v. enabled_edge es u v \<longrightarrow> rank u < rank v"
  shows "\<not> directed_cycle es p"
proof
  assume "directed_cycle es p"
  then have "(hd p, hd p) \<in> {(a, b). enabled_edge es a b}\<^sup>+" by (rule directed_cycle_trancl)
  moreover have "{(a, b). enabled_edge es a b} \<subseteq> {(a, b). rank a < rank b}" using assms by auto
  ultimately have "(hd p, hd p) \<in> {(a, b). rank a < rank b}\<^sup>+" by (meson trancl_mono)
  moreover have "trans {(a, b). rank a < rank b}" by (auto simp: trans_def)
  ultimately have "(hd p, hd p) \<in> {(a, b). rank a < rank b}" by simp
  then show False by simp
qed

lemma wf_diamond_acyclic: "\<forall>p. \<not> directed_cycle (wf_edges wf_diamond) p"
proof
  fix p
  have "\<forall>u v. enabled_edge (wf_edges wf_diamond) u v
          \<longrightarrow> (if u = ''A'' then 0 else if u = ''D'' then 2 else (1::nat))
              < (if v = ''A'' then 0 else if v = ''D'' then 2 else 1)"
    by (auto simp: enabled_edge_def wf_diamond_def ex_workflow_def ex_edge_def is_enabled_def)
  then show "\<not> directed_cycle (wf_edges wf_diamond) p" by (rule rank_no_cycle)
qed

theorem max_depth_longest_chain_witness:
  "(\<forall>p. \<not> directed_cycle (wf_edges wf_diamond) p)
   \<and> map_option (maxDepth \<circ> result_stats) (validate [] wf_diamond) = Some 3
   \<and> chain wf_diamond [''A'', ''B'', ''D'']
   \<and> \<not> (\<exists>p. chain wf_diamond p \<and> 3 < length p)
   \<and> map_option (maxDepth \<circ> result_stats) (validate [] wf_chain3) = Some 3
   \<and> detectCycles (wf_nodes (wf_cycle None)) (wf_edges (wf_cycle None)) = Some [[''A'', ''B'', ''A'']]
   \<and> map_option (maxDepth \<circ> result_stats) (validate [] (wf_cycle None)) = Some 0"
proof -
  have v: "map_option (maxDepth \<circ> result_stats) (validate [] wf_diamond) = Some 3"
    by code_simp
  have c: "chain wf_diamond [''A'', ''B'', ''D'']" by code_simp
  have v3: "map_option (maxDepth \<circ> result_stats) (validate [] wf_chain3) = Some 3"
    by code_simp
  have d: "detectCycles (wf_nodes (wf_cycle None)) (wf_edges (wf_cycle None)) = Some [[''A'', ''B'', ''A'']]"
    by code_simp
  have v0: "map_option (maxDepth \<circ> result_stats) (validate [] (wf_cycle None)) = Some 0"
    by code_simp
  from max_depth_longest_chain[of "[]" wf_diamond] wf_diamond_acyclic v
  have "\<forall>p. chain wf_diamond p \<longrightarrow> length p \<le> 3" by auto
  then have "\<not> (\<exists>p. chain wf_diamond p \<and> 3 < length p)" by (auto simp: not_less)
  then show ?thesis using wf_diamond_acyclic v c v3 d v0 by blast
qed

theorem cycle_reported_witness:
  "directed_cycle (wf_edges (wf_cycle None)) [''A'', ''B'', ''A'']
   \<and> set [''A'', ''B'', ''A''] \<subseteq> set (map node_id (wf_nodes (wf_cycle None)))
   \<and> (\<exists>res. validate [] (wf_cycle None) = Some res \<and> \<not> valid res
          \<and> (\<exists>e\<in>set (errors res). code e = ''CIRCULAR_DEPENDENCY''))
   \<and> map_option (map code \<circ> errors) (validate [] (wf_cycle None)) = Some [''CIRCULAR_DEPENDENCY'']"
proof -
  have a: "directed_cycle (wf_edges (wf_cycle None)) [''A'', ''B'', ''A'']" by code_simp
  have b: "set [''A'', ''B'', ''A''] \<subseteq> set (map node_id (wf_nodes (wf_cycle None)))"
    by (simp add: wf_cycle_def ex_workflow_def ex_wf_node_def)
  have c: "map_option (map code \<circ> errors) (validate [] (wf_cycle None)) = Some [''CIRCULAR_DEPENDENCY'']"
    by code_simp
  from cycle_reported[OF a b, of "[]"] a b c show ?thesis by blast
qed

lemma wf_cycle_disabled_acyclic: "\<forall>p. \<not> directed_cycle (wf_edges (wf_cycle (Some False))) p"
proof
  fix p
  have "\<forall>u v. enabled_edge (wf_edges (wf_cycle (Some False))) u v
          \<longrightarrow> (if u = ''A'' then 0 else (1::nat)) < (if v = ''A'' then 0 else 1)"
    by (auto simp: enabled_edge_def wf_cycle_def ex_workflow_def ex_edge_def is_enabled_def)
  then show "\<not> directed_cycle (wf_edges (wf_cycle (Some False))) p" by (rule rank_no_cycle)
qed

lemma wf_disabled_tail_acyclic: "\<forall>p. \<not> directed_cycle (wf_edges wf_disabled_tail) p"
proof
  fix p
  have "\<forall>u v. enabled_edge (wf_edges wf_disabled_tail) u v
          \<longrightarrow> (if u = ''A'' then 0 else (1::nat)) < (if v = ''A'' then 0 else 1)"
    by (auto simp: enabled_edge_def wf_disabled_tail_def ex_workflow_def ex_edge_def is_enabled_def)
  then show "\<not> directed_cycle (wf_edges wf_disabled_tail) p" by (rule rank_no_cycle)
qed

theorem enabled_flag_scope_witness:
  "(\<forall>p. \<not> directed_cycle (wf_edges wf_disabled_tail) p)
   \<and> map_option (map code \<circ> errors) (validate [] wf_disabled_tail) = Some []
   \<and> map_option (maxDepth \<circ> result_stats) (validate [] wf_disabled_tail) = Some 2
   \<and> map_option (startNodes \<circ> result_stats) (validate [] wf_disabled_tail) = Some 1
   \<and> map_option (endNodes \<circ> result_stats) (validate [] wf_disabled_tail) = Some 1
   \<and> map_option (map w_code \<circ> warnings) (validate [] wf_disabled_tail) = Some []
   \<and> wf_disabled_tail\<lparr>wf_edges := filter is_enabled (wf_edges wf_disabled_tail)\<rparr> = wf_without_tail
   \<and> map_option (maxDepth \<circ> result_stats) (validate [] wf_without_tail) = Some 2
   \<and> map_option (startNodes \<circ> result_stats) (validate [] wf_without_tail) = Some 2
   \<and> map_option (endNodes \<circ> result_stats) (validate [] wf_without_tail) = Some 2
   \<and> map_option (map w_code \<circ> warnings) (validate [] wf_without_tail) = Some [''ISOLATED_NODE'']
   \<and> map_option (map w_nodeId \<circ> warnings) (validate [] wf_without_tail) = Some [Some ''C'']
   \<and> (\<forall>p. \<not> directed_cycle (wf_edges (wf_cycle (Some False))) p)
   \<and> map_option (map code \<circ> errors) (validate [] (wf_cycle (Some False))) = Some []
   \<and> map_option (maxDepth \<circ> result_stats) (validate [] (wf_cycle (Some False))) = Some 2
   \<and> map_option (map w_code \<circ> warnings) (validate [] (wf_cycle (Some False)))
       = Some [''NO_START_NODE'', ''NO_END_NODE'']
   \<and> map_option (startNodes \<circ> result_stats) (validate [] (wf_cycle (Some False))) = Some 0
   \<and> map_option (endNodes \<circ> result_stats) (validate [] (wf_cycle (Some False))) = Some 0
   \<and> map_option (map code \<circ> errors) (validate [] (wf_cycle None)) = Some [''CIRCULAR_DEPENDENCY'']
   \<and> map_option warnings (validate [] (wf_cycle None))
       = map_option warnings (validate [] (wf_cycle (Some False)))"
proof -
  have a: "map_option (map code \<circ> errors) (validate [] (wf_cycle (Some False))) = Some []"
    and b: "map_option (maxDepth \<circ> result_stats) (validate [] (wf_cycle (Some False))) = Some 2"
    and c: "map_option (map w_code \<circ> warnings) (validate [] (wf_cycle (Some False)))
       = Some [''NO_START_NODE'', ''NO_END_NODE'']"
    and d: "map_option (startNodes \<circ> result_stats) (validate [] (wf_cycle (Some False))) = Some 0"
    and e: "map_option (endNodes \<circ> result_stats) (validate [] (wf_cycle (Some False))) = Some 0"
    and f: "map_option (map code \<circ> errors) (validate [] (wf_cycle None)) = Some [''CIRCULAR_DEPENDENCY'']"
    by code_simp+
  have t1: "map_option (map code \<circ> errors) (validate [] wf_disabled_tail) = Some []"
    and t2: "map_option (maxDepth \<circ> result_stats) (validate [] wf_disabled_tail) = Some 2"
    and t5: "map_option (map w_code \<circ> warnings) (validate [] wf_disabled_tail) = Some []"
    by code_simp+
  have u0: "wf_disabled_tail\<lparr>wf_edges := filter is_enabled (wf_edges wf_disabled_tail)\<rparr> = wf_without_tail"
    by (simp add: wf_disabled_tail_def wf_without_tail_def ex_workflow_def ex_edge_def is_enabled_def)
  have u2: "map_option (maxDepth \<circ> result_stats) (validate [] wf_without_tail) = Some 2"
    and u3: "map_option (startNodes \<circ> result_stats) (validate [] wf_without_tail) = Some 2"
    and u4: "map_option (endNodes \<circ> result_stats) (validate [] wf_without_tail) = Some 2"
    and u5: "map_option (map w_code \<circ> warnings) (validate [] wf_without_tail) = Some [''ISOLATED_NODE'']"
    and u6: "map_option (map w_nodeId \<circ> warnings) (validate [] wf_without_tail) = Some [Some ''C'']"
    by code_simp+
  have n: "length (filter (\<lambda>n. node_id n \<notin> target ` set (wf_edges wf_disabled_tail))
                     (wf_nodes wf_disabled_tail)) = 1"
       "length (filter (\<lambda>n. node_id n \<notin> source ` set (wf_edges wf_disabled_tail))
                     (wf_nodes wf_disabled_tail)) = 1"
    by (simp_all add: wf_disabled_tail_def ex_workflow_def ex_edge_def ex_wf_node_def)
  from enabled_flag_scope[of wf_disabled_tail "[]" "\<lambda>e. None"]
  have t3: "map_option (startNodes \<circ> result_stats) (validate [] wf_disabled_tail) = Some 1"
    and t4: "map_option (endNodes \<circ> result_stats) (validate [] wf_disabled_tail) = Some 1"
    unfolding n by auto
  have m: "(wf_cycle (Some False))\<lparr>wf_edges := map (\<lambda>e. e\<lparr>enabled := None\<rparr>) (wf_edges (wf_cycle (Some False)))\<rparr>
             = wf_cycle None"
    by (simp add: wf_cycle_def ex_workflow_def ex_edge_def)
  from enabled_flag_scope[of "wf_cycle (Some False)" "[]" "\<lambda>e. None"]
  have w: "map_option warnings (validate [] (wf_cycle None))
       = map_option warnings (validate [] (wf_cycle (Some False)))"
    unfolding m by auto
  have x: "map_option (map code \<circ> errors) (validate [] wf_disabled_tail) = Some []
   \<and> map_option (maxDepth \<circ> result_stats) (validate [] wf_disabled_tail) = Some 2
   \<and> map_option (startNodes \<circ> result_stats) (validate [] wf_disabled_tail) = Some 1
   \<and> map_option (endNodes \<circ> result_stats) (validate [] wf_disabled_tail) = Some 1
   \<and> map_option (map w_code \<circ> warnings) (validate [] wf_disabled_tail) = Some []"
    using t1 t2 t3 t4 t5 by simp
  have y: "map_option (maxDepth \<circ> result_stats) (validate [] wf_without_tail) = Some 2
   \<and> map_option (startNodes \<circ> result_stats) (validate [] wf_without_tail) = Some 2
   \<and> map_option (endNodes \<circ> result_stats) (validate [] wf_without_tail) = Some 2
   \<and> map_option (map w_code \<circ> warnings) (validate [] wf_without_tail) = Some [''ISOLATED_NODE'']
   \<and> map_option (map w_nodeId \<circ> warnings) (validate [] wf_without_tail) = Some [Some ''C'']"
    using u2 u3 u4 u5 u6 by simp
  show ?thesis
    using wf_disabled_tail_acyclic x u0 y wf_cycle_disabled_acyclic a b c d e f w by blast
qed

end
